theory Spec2Isabelle
  imports Main "HOL-Library.Sublist"
begin

section \<open>Strings as Python has them\<close>

text \<open>
  The program is \<^verbatim>\<open>create.py\<close>. Python strings are modelled as \<^typ>\<open>string\<close>; a
  \<^typ>\<open>char\<close> stands for one code point below 256. A backslash cannot be written inside
  a string literal, so it is the character \<open>CHR 0x5C\<close>.
\<close>

abbreviation bsl :: char where
  "bsl \<equiv> CHR 0x5C"

abbreviation newline :: char where
  "newline \<equiv> CHR 0x0A"

text \<open>
  \<^verbatim>\<open>str.isspace\<close> and the regular-expression class \<^verbatim>\<open>\s\<close> on the code points below
  256: tab, line feed, vertical tab, form feed, carriage return, the separators
  0x1C to 0x1F, space, 0x85 and 0xA0.
\<close>

definition is_space :: "char \<Rightarrow> bool" where
  "is_space c \<longleftrightarrow>
     c \<in> {CHR 0x09, CHR 0x0A, CHR 0x0B, CHR 0x0C, CHR 0x0D, CHR 0x1C, CHR 0x1D,
          CHR 0x1E, CHR 0x1F, CHR 0x20, CHR 0x85, CHR 0xA0}"

text \<open>\<^verbatim>\<open>s.strip()\<close>\<close>

definition strip :: "string \<Rightarrow> string" where
  "strip s = rev (dropWhile is_space (rev (dropWhile is_space s)))"

text \<open>
  The first occurrence of \<open>p\<close> in \<open>s\<close>: the text before it and the text after it
  (\<^verbatim>\<open>s.partition(p)\<close> when \<open>p\<close> occurs, \<open>None\<close> when it does not).
\<close>

fun split_at_first :: "string \<Rightarrow> string \<Rightarrow> (string \<times> string) option" where
  "split_at_first p [] = (if p = [] then Some ([], []) else None)"
| "split_at_first p (c # cs) =
     (if prefix p (c # cs) then Some ([], drop (length p) (c # cs))
      else (case split_at_first p cs of
              None \<Rightarrow> None
            | Some (b, a) \<Rightarrow> Some (c # b, a)))"

text \<open>\<^verbatim>\<open>s.replace(g, "")\<close> for a non-empty \<open>g\<close>: every occurrence, left to right.\<close>

function remove_all :: "string \<Rightarrow> string \<Rightarrow> string" where
  "remove_all g [] = []"
| "remove_all g (c # cs) =
     (if g \<noteq> [] \<and> prefix g (c # cs) then remove_all g (drop (length g) (c # cs))
      else c # remove_all g cs)"
  by pat_completeness auto
termination
  by (relation "measure (\<lambda>(g, s). length s)") auto

text \<open>The decimal text of a number, as an f-string prints an index.\<close>

definition digit_char :: "nat \<Rightarrow> char" where
  "digit_char d = char_of (48 + d)"

function str_nat :: "nat \<Rightarrow> string" where
  "str_nat n = (if n < 10 then [digit_char n] else str_nat (n div 10) @ [digit_char (n mod 10)])"
  by pat_completeness auto
termination
  by (relation "measure id") auto

declare str_nat.simps [simp del]

section \<open>Data model\<close>

text \<open>
  The element dictionaries that \<^verbatim>\<open>parse_latex\<close> builds, by their \<^verbatim>\<open>"type"\<close>:
  \<^verbatim>\<open>latex\<close> (text), \<^verbatim>\<open>manim\<close> (code), \<^verbatim>\<open>image\<close> and \<^verbatim>\<open>video\<close> (file, width,
  height, scale; \<open>None\<close> is Python's \<^verbatim>\<open>None\<close>) and \<^verbatim>\<open>pagebreak\<close>.
\<close>

datatype kind = Image | Video

datatype element =
    Latex string
  | Manim string
  | Media kind string "string option" "string option" "string option"
  | Pagebreak

fun kind_name :: "kind \<Rightarrow> string" where
  "kind_name Image = ''image''"
| "kind_name Video = ''video''"

fun is_manim :: "element \<Rightarrow> bool" where
  "is_manim (Manim c) = True"
| "is_manim e = False"

section \<open>Layout detection\<close>

text \<open>
  \<^verbatim>\<open>re.search(r"(?m)^(?:%%\s*twocolumn|\\twocolumn|\\document\[.*twocolumn.*\])", tex)\<close>

  \<open>marker_at s\<close> is the alternation matched at the start of \<open>s\<close>. In the third
  alternative \<^verbatim>\<open>.\<close> does not match a line feed, so \<^verbatim>\<open>twocolumn\<close> and the closing
  bracket are looked for in the rest of the line; a bracket after some occurrence of
  \<^verbatim>\<open>twocolumn\<close> is also after the first one.
\<close>

definition marker_at :: "string \<Rightarrow> bool" where
  "marker_at s \<longleftrightarrow>
     (prefix ''%%'' s \<and> prefix ''twocolumn'' (dropWhile is_space (drop 2 s)))
     \<or> prefix (bsl # ''twocolumn'') s
     \<or> (prefix (bsl # ''document['') s \<and>
        (case split_at_first ''twocolumn'' (takeWhile (\<lambda>c. c \<noteq> newline) (drop 10 s)) of
           None \<Rightarrow> False
         | Some (b, a) \<Rightarrow> CHR '']'' \<in> set a))"

text \<open>
  The search, left to right. With the flag \<^verbatim>\<open>(?m)\<close> the anchor \<^verbatim>\<open>^\<close> holds at the start
  of the text and right after a line feed: \<open>bol\<close> says whether it holds here.
\<close>

fun search_marker :: "bool \<Rightarrow> string \<Rightarrow> bool" where
  "search_marker bol [] = False"
| "search_marker bol (c # cs) =
     ((bol \<and> marker_at (c # cs)) \<or> search_marker (c = newline) cs)"

definition detect_layout :: "string \<Rightarrow> string" where
  "detect_layout tex = (if search_marker True tex then ''two-column'' else ''single-column'')"

text \<open>
  The first two spellings of the pattern, \<^verbatim>\<open>%%\s*twocolumn\<close> and \<^verbatim>\<open>\\twocolumn\<close>, matched
  at the start of \<open>s\<close>.
\<close>

definition line_marker :: "string \<Rightarrow> bool" where
  "line_marker s \<longleftrightarrow>
     (prefix ''%%'' s \<and> prefix ''twocolumn'' (dropWhile is_space (drop 2 s)))
     \<or> prefix (bsl # ''twocolumn'') s"

text \<open>One of the spellings of the pattern stands somewhere in the text, at any column.\<close>

fun marker_anywhere :: "string \<Rightarrow> bool" where
  "marker_anywhere [] = False"
| "marker_anywhere (c # cs) = (marker_at (c # cs) \<or> marker_anywhere cs)"

section \<open>Segmentation: first pass\<close>

abbreviation begin_manim :: string where
  "begin_manim \<equiv> bsl # ''begin{manim}''"

abbreviation end_manim :: string where
  "end_manim \<equiv> bsl # ''end{manim}''"

lemma split_at_first_Some:
  "split_at_first p s = Some (b, a) \<Longrightarrow> s = b @ p @ a"
proof (induction s arbitrary: b)
  case Nil
  then show ?case by (simp split: if_splits)
next
  case (Cons c cs)
  show ?case
  proof (cases "prefix p (c # cs)")
    case True
    with Cons.prems have "b = []" "a = drop (length p) (c # cs)" by simp_all
    moreover from True obtain z where "c # cs = p @ z" by (auto simp: prefix_def)
    ultimately show ?thesis by simp
  next
    case False
    with Cons.prems obtain b' where "split_at_first p cs = Some (b', a)" "b = c # b'"
      by (auto split: option.splits)
    with Cons.IH show ?thesis by simp
  qed
qed

text \<open>\<^verbatim>\<open>before = tex[pos:m.start()].strip(); if before: elements.append(...)\<close>\<close>

definition text_block :: "string \<Rightarrow> element list" where
  "text_block s = (if strip s \<noteq> [] then [Latex (strip s)] else [])"

text \<open>
  \<^verbatim>\<open>
    for m in re.finditer(r"\\begin\{manim\}([\s\S]*?)\\end\{manim\}", tex):
        before = tex[pos:m.start()].strip()
        if before:
            elements.append({"type": "latex", "text": before})
        elements.append({"type": "manim", "code": m.group(1).strip()})
        pos = m.end()
    after = tex[pos:].strip()
    if after:
        elements.append({"type": "latex", "text": after})
  \<close>
  The argument is \<^verbatim>\<open>tex[pos:]\<close>. The group is lazy, so a match starts at the first
  \<^verbatim>\<open>\begin{manim}\<close> and ends at the first \<^verbatim>\<open>\end{manim}\<close> after it; when none follows
  the first \<^verbatim>\<open>\begin{manim}\<close>, none follows a later one either and the search ends.
\<close>

function first_pass :: "string \<Rightarrow> element list" where
  "first_pass tex =
     (case split_at_first begin_manim tex of
        None \<Rightarrow> text_block tex
      | Some (bef, rest) \<Rightarrow>
          (case split_at_first end_manim rest of
             None \<Rightarrow> text_block tex
           | Some (body, aft) \<Rightarrow>
               text_block bef @ [Manim (strip body)] @ first_pass aft))"
  by pat_completeness auto
termination
proof (relation "measure length")
  fix tex x2 before rest x2a body after
  assume "split_at_first begin_manim tex = Some x2" "(before, rest) = x2"
    "split_at_first end_manim rest = Some x2a" "(body, after) = x2a"
  then have "tex = before @ begin_manim @ rest" "rest = body @ end_manim @ after"
    by (auto dest: split_at_first_Some)
  then show "(after, tex) \<in> measure length" by simp
qed simp

declare first_pass.simps [simp del]

section \<open>Segmentation: second pass\<close>

abbreviation manim_open :: string where
  "manim_open \<equiv> bsl # ''manim{''"

abbreviation newpage :: string where
  "newpage \<equiv> bsl # ''newpage''"

abbreviation breakpage :: string where
  "breakpage \<equiv> bsl # ''breakpage''"

abbreviation not_rbrace :: "char \<Rightarrow> bool" where
  "not_rbrace \<equiv> (\<lambda>c. c \<noteq> CHR ''}'')"

text \<open>
  \<^verbatim>\<open>
    def repl_inline(m):
        expanded.append({"type": "manim", "code": m.group(1)})
        return ""
    t = re.sub(r"\\manim\{([^}]*)\}", repl_inline, t)
  \<close>
  The pattern matches at a position when \<^verbatim>\<open>\manim{\<close> stands there and a closing brace
  follows somewhere; the group is the text up to the first closing brace. The callback
  appends to \<^verbatim>\<open>expanded\<close>, which is threaded through; the result is the new
  \<^verbatim>\<open>expanded\<close> and the text with the matches removed.
\<close>

function sub_manim :: "element list \<Rightarrow> string \<Rightarrow> element list \<times> string" where
  "sub_manim expanded [] = (expanded, [])"
| "sub_manim expanded (c # cs) =
     (if prefix manim_open (c # cs) \<and> CHR ''}'' \<in> set (drop 7 (c # cs))
      then sub_manim (expanded @ [Manim (takeWhile not_rbrace (drop 7 (c # cs)))])
             (tl (dropWhile not_rbrace (drop 7 (c # cs))))
      else (case sub_manim expanded cs of (ex, t) \<Rightarrow> (ex, c # t)))"
  by pat_completeness auto
termination
proof (relation "measure (\<lambda>(e, s). length s)")
  fix expanded :: "element list" and c :: char and cs :: string
  have "length (tl (dropWhile not_rbrace (drop 7 (c # cs))))
      \<le> length (dropWhile not_rbrace (drop 7 (c # cs)))"
    by simp
  also have "\<dots> \<le> length (drop 7 (c # cs))"
    by (rule length_dropWhile_le)
  also have "\<dots> < length (c # cs)"
    by simp
  finally show "((expanded @ [Manim (takeWhile not_rbrace (drop 7 (c # cs)))],
      tl (dropWhile not_rbrace (drop 7 (c # cs)))), expanded, c # cs)
      \<in> measure (\<lambda>(e, s). length s)"
    by simp
qed simp_all

text \<open>
  \<^verbatim>\<open>parts = re.split(r"(\\newpage|\\breakpage)", t)\<close>: the texts between the page
  breaks, with the page breaks themselves (the pattern is a group) between them.
\<close>

function re_split_pages :: "string \<Rightarrow> string list" where
  "re_split_pages [] = [[]]"
| "re_split_pages (c # cs) =
     (if prefix newpage (c # cs) then [] # newpage # re_split_pages (drop 8 (c # cs))
      else if prefix breakpage (c # cs) then [] # breakpage # re_split_pages (drop 10 (c # cs))
      else (case re_split_pages cs of
              [] \<Rightarrow> [[c]]
            | p # ps \<Rightarrow> (c # p) # ps))"
  by pat_completeness auto
termination
  by (relation "measure length") auto

subsection \<open>Media directives\<close>

text \<open>
  \<^verbatim>\<open>rf"\\{typ}\[?([^\]]*)\]?\{{([^}}]+)\}}"\<close>, that is
  \<^verbatim>\<open>\\image\[?([^\]]*)\]?\{([^}]+)\}\<close> and the same for \<^verbatim>\<open>video\<close>.

  \<open>try_brace\<close> is the tail \<^verbatim>\<open>\{([^}]+)\}\<close>: an opening brace, the longest run without a
  closing brace, which must not be empty, and the closing brace. It gives the path and
  the text after the match.
\<close>

definition try_brace :: "string \<Rightarrow> (string \<times> string) option" where
  "try_brace s =
     (case s of
        [] \<Rightarrow> None
      | c # body \<Rightarrow>
          if c = CHR ''{'' \<and> takeWhile not_rbrace body \<noteq> [] \<and> dropWhile not_rbrace body \<noteq> []
          then Some (takeWhile not_rbrace body, tl (dropWhile not_rbrace body))
          else None)"

text \<open>
  Backtracking of the greedy \<^verbatim>\<open>[^\]]*\<close>: with \<^verbatim>\<open>\]?\<close> matching nothing, the group
  holds the first \<open>k\<close> characters, for the largest \<open>k\<close> at which the tail matches.
\<close>

fun shorter_opt :: "nat \<Rightarrow> string \<Rightarrow> (string \<times> string \<times> string) option" where
  "shorter_opt 0 r =
     (case try_brace r of
        None \<Rightarrow> None
      | Some (path, rest) \<Rightarrow> Some ([], path, rest))"
| "shorter_opt (Suc k) r =
     (case try_brace (drop (Suc k) r) of
        None \<Rightarrow> shorter_opt k r
      | Some (path, rest) \<Rightarrow> Some (take (Suc k) r, path, rest))"

text \<open>
  \<^verbatim>\<open>([^\]]*)\]?\{([^}]+)\}\<close>: first the longest run without a closing bracket, followed
  by a closing bracket if one stands there; then the shorter runs.
\<close>

definition opt_and_path :: "string \<Rightarrow> (string \<times> string \<times> string) option" where
  "opt_and_path r =
     (let n = length (takeWhile (\<lambda>c. c \<noteq> CHR '']'') r) in
      case (if prefix '']'' (drop n r) then try_brace (drop (Suc n) r) else None) of
        Some (path, rest) \<Rightarrow> Some (take n r, path, rest)
      | None \<Rightarrow> shorter_opt n r)"

text \<open>
  The whole pattern at the start of \<open>s\<close>: the option string, the path, and the text
  after the match. \<^verbatim>\<open>\[?\<close> takes an opening bracket when one stands there, and gives
  it back when the rest does not match.
\<close>

definition match_media :: "string \<Rightarrow> string \<Rightarrow> (string \<times> string \<times> string) option" where
  "match_media typ s =
     (if prefix (bsl # typ) s then
        (let r = drop (Suc (length typ)) s in
         case (if prefix ''['' r then opt_and_path (tl r) else None) of
           Some m \<Rightarrow> Some m
         | None \<Rightarrow> opt_and_path r)
      else None)"

lemma try_brace_Some:
  "try_brace s = Some (p, rest) \<Longrightarrow> s = CHR ''{'' # p @ CHR ''}'' # rest"
proof -
  assume a: "try_brace s = Some (p, rest)"
  then obtain body where s: "s = CHR ''{'' # body" and p: "p = takeWhile not_rbrace body"
    and ne: "dropWhile not_rbrace body \<noteq> []" and r: "rest = tl (dropWhile not_rbrace body)"
    by (auto simp: try_brace_def split: list.splits if_splits)
  from ne have "hd (dropWhile not_rbrace body) = CHR ''}''"
    using hd_dropWhile [of not_rbrace body] by simp
  with ne r have "dropWhile not_rbrace body = CHR ''}'' # rest"
    by (cases "dropWhile not_rbrace body") simp_all
  then have "body = p @ CHR ''}'' # rest"
    using takeWhile_dropWhile_id [of not_rbrace body] p by simp
  with s show ?thesis by simp
qed

lemma shorter_opt_Some:
  "shorter_opt k r = Some (opt, p, rest) \<Longrightarrow>
     \<exists>j\<le>k. opt = take j r \<and> drop j r = CHR ''{'' # p @ CHR ''}'' # rest"
proof (induction k)
  case 0
  then show ?case by (auto split: option.splits dest: try_brace_Some)
next
  case (Suc k)
  show ?case
  proof (cases "try_brace (drop (Suc k) r)")
    case None
    with Suc.prems have "shorter_opt k r = Some (opt, p, rest)" by simp
    with Suc.IH show ?thesis by (meson le_Suc_eq)
  next
    case (Some a)
    with Suc.prems have "try_brace (drop (Suc k) r) = Some (p, rest)" "opt = take (Suc k) r"
      by (auto split: prod.splits)
    then have "opt = take (Suc k) r \<and> drop (Suc k) r = CHR ''{'' # p @ CHR ''}'' # rest"
      by (auto dest: try_brace_Some)
    then show ?thesis by (intro exI [of _ "Suc k"]) simp
  qed
qed

lemma opt_and_path_Some:
  assumes "opt_and_path r = Some (opt, p, rest)"
  shows "\<exists>x. r = opt @ x @ CHR ''{'' # p @ CHR ''}'' # rest"
proof -
  define n where "n = length (takeWhile (\<lambda>c. c \<noteq> CHR '']'') r)"
  show ?thesis
  proof (cases "if prefix '']'' (drop n r) then try_brace (drop (Suc n) r) else None")
    case None
    with assms have "shorter_opt n r = Some (opt, p, rest)"
      by (simp add: opt_and_path_def n_def [symmetric])
    then obtain j where "opt = take j r" "drop j r = CHR ''{'' # p @ CHR ''}'' # rest"
      by (auto dest: shorter_opt_Some)
    then have "r = opt @ [] @ CHR ''{'' # p @ CHR ''}'' # rest"
      using append_take_drop_id [of j r] by simp
    then show ?thesis by blast
  next
    case (Some a)
    with assms have o: "opt = take n r" and t: "try_brace (drop (Suc n) r) = Some (p, rest)"
      and b: "prefix '']'' (drop n r)"
      by (auto simp: opt_and_path_def n_def [symmetric] split: if_splits prod.splits)
    from b obtain z where z: "drop n r = CHR '']'' # z" by (auto simp: prefix_def)
    then have "drop (Suc n) r = z" by (metis drop_Suc list.sel(3) tl_drop)
    with t have "z = CHR ''{'' # p @ CHR ''}'' # rest" by (auto dest: try_brace_Some)
    with z o have "r = opt @ '']'' @ CHR ''{'' # p @ CHR ''}'' # rest"
      using append_take_drop_id [of n r] by simp
    then show ?thesis by blast
  qed
qed

lemma match_media_Some:
  assumes "match_media typ s = Some (opt, p, rest)"
  shows "\<exists>g. s = g @ CHR ''}'' # rest"
proof -
  define r where "r = drop (Suc (length typ)) s"
  from assms have pre: "prefix (bsl # typ) s"
    by (auto simp: match_media_def split: if_splits)
  then have s: "s = (bsl # typ) @ r" by (auto simp: prefix_def r_def)
  from assms pre have "(prefix ''['' r \<and> opt_and_path (tl r) = Some (opt, p, rest))
      \<or> opt_and_path r = Some (opt, p, rest)"
    by (auto simp: match_media_def r_def [symmetric] Let_def split: if_splits option.splits)
  then show ?thesis
  proof
    assume "prefix ''['' r \<and> opt_and_path (tl r) = Some (opt, p, rest)"
    then obtain x where "r = CHR ''['' # tl r" "tl r = opt @ x @ CHR ''{'' # p @ CHR ''}'' # rest"
      by (auto simp: prefix_def dest: opt_and_path_Some)
    then have "r = (CHR ''['' # opt @ x @ CHR ''{'' # p) @ CHR ''}'' # rest" by simp
    with s have "s = ((bsl # typ) @ CHR ''['' # opt @ x @ CHR ''{'' # p) @ CHR ''}'' # rest"
      by simp
    then show ?thesis by blast
  next
    assume "opt_and_path r = Some (opt, p, rest)"
    then obtain x where "r = (opt @ x @ CHR ''{'' # p) @ CHR ''}'' # rest"
      by (auto dest: opt_and_path_Some)
    with s have "s = ((bsl # typ) @ opt @ x @ CHR ''{'' # p) @ CHR ''}'' # rest" by simp
    then show ?thesis by blast
  qed
qed

text \<open>
  \<^verbatim>\<open>re.finditer(pattern, part)\<close>: the matches from left to right, each as
  \<^verbatim>\<open>(m.group(0), m.group(1), m.group(2))\<close>; the search goes on after a match.
\<close>

function finditer_media :: "string \<Rightarrow> string \<Rightarrow> (string \<times> string \<times> string) list" where
  "finditer_media typ [] = []"
| "finditer_media typ (c # cs) =
     (case match_media typ (c # cs) of
        None \<Rightarrow> finditer_media typ cs
      | Some (opt, path, rest) \<Rightarrow>
          (take (length (c # cs) - length rest) (c # cs), opt, path) # finditer_media typ rest)"
  by pat_completeness auto
termination
proof (relation "measure (\<lambda>(t, s). length s)")
  fix ty c cs x2 opt y path rest
  assume "match_media ty (c # cs) = Some x2" "(opt, y) = x2" "(path, rest) = y"
  then have "\<exists>g. c # cs = g @ CHR ''}'' # rest" by (auto dest: match_media_Some)
  then obtain g where "c # cs = g @ CHR ''}'' # rest" ..
  then have "length (c # cs) = length g + Suc (length rest)" by (metis length_append length_Cons)
  then show "((ty, rest), ty, c # cs) \<in> measure (\<lambda>(t, s). length s)" by simp
qed simp_all

text \<open>The attribute searches of \<^verbatim>\<open>parse_media\<close>.\<close>

definition is_digit :: "char \<Rightarrow> bool" where
  "is_digit c \<longleftrightarrow> c \<in> set ''0123456789''"

text \<open>\<^verbatim>\<open>\s*=\s*\<close>\<close>

definition skip_eq :: "string \<Rightarrow> string option" where
  "skip_eq s =
     (case dropWhile is_space s of
        [] \<Rightarrow> None
      | c # t \<Rightarrow> if c = CHR ''='' then Some (dropWhile is_space t) else None)"

text \<open>\<^verbatim>\<open>([0-9]+%|[0-9]+px)\<close>\<close>

definition size_value :: "string \<Rightarrow> string option" where
  "size_value s =
     (let ds = takeWhile is_digit s; r = dropWhile is_digit s in
      if ds = [] then None
      else if prefix ''%'' r then Some (ds @ ''%'')
      else if prefix ''px'' r then Some (ds @ ''px'')
      else None)"

text \<open>\<^verbatim>\<open>([0-9.]+)\<close>\<close>

definition scale_value :: "string \<Rightarrow> string option" where
  "scale_value s =
     (let v = takeWhile (\<lambda>c. is_digit c \<or> c = CHR ''.'') s in
      if v = [] then None else Some v)"

text \<open>
  \<^verbatim>\<open>m = re.search(key + r"\s*=\s*(value)", opt); m.group(1) if m else None\<close>: the
  leftmost position where the key, the equals sign and a value stand.
\<close>

fun search_attr :: "string \<Rightarrow> (string \<Rightarrow> string option) \<Rightarrow> string \<Rightarrow> string option" where
  "search_attr key val [] = None"
| "search_attr key val (c # cs) =
     (case (if prefix key (c # cs) then
              (case skip_eq (drop (length key) (c # cs)) of
                 None \<Rightarrow> None
               | Some v \<Rightarrow> val v)
            else None) of
        Some g \<Rightarrow> Some g
      | None \<Rightarrow> search_attr key val cs)"

text \<open>
  \<^verbatim>\<open>
    def parse_media(match, typ):
        opt, path = match.groups()
        width = height = scale = None
        if opt:
            width = re.search(r"width\s*=\s*([0-9]+%|[0-9]+px)", opt)
            height = re.search(r"height\s*=\s*([0-9]+%|[0-9]+px)", opt)
            scale = re.search(r"scale\s*=\s*([0-9.]+)", opt)
        return {"type": typ, "file": path.strip(), "width": ..., "height": ..., "scale": ...}
  \<close>
\<close>

definition parse_media :: "kind \<Rightarrow> string \<Rightarrow> string \<Rightarrow> element" where
  "parse_media typ opt path =
     (if opt \<noteq> [] then
        Media typ (strip path) (search_attr ''width'' size_value opt)
          (search_attr ''height'' size_value opt) (search_attr ''scale'' scale_value opt)
      else Media typ (strip path) None None None)"

text \<open>
  \<^verbatim>\<open>
    for m in re.finditer(..., part):
        expanded.append(parse_media(m, typ))
        part = part.replace(m.group(0), "")
  \<close>
  The iterator was made from the text \<^verbatim>\<open>part\<close> had when the loop began; the body
  rebinds \<^verbatim>\<open>part\<close>.
\<close>

fun extract_matches ::
  "kind \<Rightarrow> (string \<times> string \<times> string) list \<Rightarrow> element list \<times> string \<Rightarrow> element list \<times> string"
where
  "extract_matches typ [] (expanded, part) = (expanded, part)"
| "extract_matches typ ((g, opt, path) # ms) (expanded, part) =
     extract_matches typ ms (expanded @ [parse_media typ opt path], remove_all g part)"

definition extract_media :: "kind \<Rightarrow> element list \<times> string \<Rightarrow> element list \<times> string" where
  "extract_media typ st =
     extract_matches typ (finditer_media (kind_name typ) (snd st)) st"

text \<open>
  The body of \<^verbatim>\<open>for part in parts\<close>: blank parts are skipped, a page break is
  recorded, and any other part gives its image directives, then its video directives,
  then what is left of its text.
\<close>

definition expand_part :: "element list \<Rightarrow> string \<Rightarrow> element list" where
  "expand_part expanded part =
     (if strip part = [] then expanded
      else if strip part = newpage \<or> strip part = breakpage then expanded @ [Pagebreak]
      else (case extract_media Video (extract_media Image (expanded, part)) of
              (ex, p) \<Rightarrow> if strip p \<noteq> [] then ex @ [Latex (strip p)] else ex))"

text \<open>The second pass on the text \<open>t\<close> of one \<^verbatim>\<open>latex\<close> element.\<close>

definition expand_text :: "element list \<Rightarrow> string \<Rightarrow> element list" where
  "expand_text expanded t =
     (case sub_manim expanded t of
        (ex, t') \<Rightarrow> foldl expand_part ex (re_split_pages t'))"

text \<open>\<^verbatim>\<open>for el in elements\<close>: an element that is not text is appended as it is.\<close>

fun expand_elements :: "element list \<Rightarrow> element list \<Rightarrow> element list" where
  "expand_elements expanded [] = expanded"
| "expand_elements expanded (Latex t # els) = expand_elements (expand_text expanded t) els"
| "expand_elements expanded (el # els) = expand_elements (expanded @ [el]) els"

definition parse_latex :: "string \<Rightarrow> element list \<times> string" where
  "parse_latex tex = (expand_elements [] (first_pass tex), detect_layout tex)"

text \<open>
  \<^verbatim>\<open>[m.group(1) for m in re.finditer(r"\\manim\{([^}]*)\}", t)]\<close>: the codes of the
  inline animation directives of \<open>t\<close>, in their order of occurrence.
\<close>

function inline_codes :: "string \<Rightarrow> string list" where
  "inline_codes [] = []"
| "inline_codes (c # cs) =
     (if prefix manim_open (c # cs) \<and> CHR ''}'' \<in> set (drop 7 (c # cs))
      then takeWhile not_rbrace (drop 7 (c # cs)) #
             inline_codes (tl (dropWhile not_rbrace (drop 7 (c # cs))))
      else inline_codes cs)"
  by pat_completeness auto
termination
proof (relation "measure length")
  fix c :: char and cs :: string
  have "length (tl (dropWhile not_rbrace (drop 7 (c # cs))))
      \<le> length (dropWhile not_rbrace (drop 7 (c # cs)))"
    by simp
  also have "\<dots> \<le> length (drop 7 (c # cs))"
    by (rule length_dropWhile_le)
  also have "\<dots> < length (c # cs)"
    by simp
  finally show "(tl (dropWhile not_rbrace (drop 7 (c # cs))), c # cs) \<in> measure length"
    by simp
qed simp_all

text \<open>
  What the second pass appends for the text \<open>t\<close> after its inline animations: the
  elements of the parts of the text that \<^verbatim>\<open>re.sub\<close> returned.
\<close>

definition residual_elements :: "string \<Rightarrow> element list" where
  "residual_elements t = foldl expand_part [] (re_split_pages (snd (sub_manim [] t)))"



section \<open>Rendering\<close>

text \<open>
  What the run finds outside itself.

  \<open>stat env f\<close> is the outcome of \<^verbatim>\<open>Path(f).stat()\<close>, on which \<^verbatim>\<open>Path(f).exists()\<close>
  rests: the path is found; it is missing (the errors ENOENT, ENOTDIR, EBADF and ELOOP,
  which \<^verbatim>\<open>exists\<close> turns into \<^verbatim>\<open>False\<close>); its name is longer than the file system
  allows, so that no such file can exist (ENAMETOOLONG, an OSError that \<^verbatim>\<open>exists\<close>
  lets through); or a directory on the way may not be searched (PermissionError, let
  through as well).

  \<open>open_read env f\<close> is what opening the path \<open>f\<close>, as the string stands, for reading
  gives: an exception, or the content of the file with its owner-write permission bit.
  \<^verbatim>\<open>Path(f).exists()\<close> works on the normalised path and \<^verbatim>\<open>shutil.copy\<close> on the string,
  so the two need not agree. \<open>privileged env\<close> says that the run is the superuser's,
  whom permission bits do not stop.

  An external tool exits with status zero, exits with another status
  (\<^verbatim>\<open>subprocess.run(..., check=True)\<close> raises CalledProcessError, with the captured
  error output), or cannot be started (FileNotFoundError).

  \<open>typeset env t i\<close> stands for the two tools of \<^verbatim>\<open>render_latex_to_svg\<close> run on the
  text \<open>t\<close> for \<^verbatim>\<open>latex/block_{i}.svg\<close>: on success, the content of that file if it
  was written. \<open>manim env c i\<close> stands for the tool of \<^verbatim>\<open>run_manim\<close> run on the scene
  built from the code \<open>c\<close> and the index \<open>i\<close>: on success, the content and the
  owner-write bit of the first \<^verbatim>\<open>.mp4\<close> found under the scene directory, if there is
  one.
\<close>

text \<open>The exceptions a run can raise.\<close>

datatype py_error =
    IndexError
  | ValueError
  | IsADirectoryError
  | NotADirectoryError
  | FileNotFoundError
  | PermissionError
  | OSError
  | CalledProcessError

datatype stat_result = Found | Missing | NameTooLong | Denied

datatype 'a proc = Exit0 'a | NonZero string | ToolMissing

record env =
  stat :: "string \<Rightarrow> stat_result"
  open_read :: "string \<Rightarrow> py_error + string \<times> bool"
  privileged :: bool
  typeset :: "string \<Rightarrow> nat \<Rightarrow> string option proc"
  manim :: "string \<Rightarrow> nat \<Rightarrow> (string \<times> bool) option proc"


text \<open>\<^verbatim>\<open>Path(f).exists()\<close>\<close>

definition path_exists :: "env \<Rightarrow> string \<Rightarrow> py_error + bool" where
  "path_exists env f =
     (case stat env f of
        Found \<Rightarrow> Inr True
      | Missing \<Rightarrow> Inr False
      | NameTooLong \<Rightarrow> Inl OSError
      | Denied \<Rightarrow> Inl PermissionError)"

text \<open>
  The entries of \<^verbatim>\<open>sequence\<close>: \<^verbatim>\<open>{"type": "pagebreak"}\<close>,
  \<^verbatim>\<open>{"type": "video", "file": rel}\<close>, \<^verbatim>\<open>{"type": "error", "text": ...}\<close>,
  \<^verbatim>\<open>{**el, "file": rel}\<close> for an image or video element, and
  \<^verbatim>\<open>{"type": "latex", "file": rel_svg}\<close>.
\<close>

datatype entry =
    EPagebreak
  | EVideo string
  | EError string
  | EMedia kind string "string option" "string option" "string option"
  | ELatex string

text \<open>
  The state of the loop in \<^verbatim>\<open>main\<close>: the list \<^verbatim>\<open>sequence\<close> and the artifact files
  under the temporary directory, by their relative paths, each with its content and its
  owner-write bit. The working files of the tools are not tracked.
\<close>

record dstate =
  sequence :: "entry list"
  tmpdir :: "string \<rightharpoonup> string \<times> bool"

text \<open>\<^verbatim>\<open>s.split(c)\<close>\<close>

fun split_on :: "char \<Rightarrow> string \<Rightarrow> string list" where
  "split_on c [] = [[]]"
| "split_on c (x # xs) =
     (if x = c then [] # split_on c xs
      else (case split_on c xs of
              [] \<Rightarrow> [[x]]
            | p # ps \<Rightarrow> (x # p) # ps))"

text \<open>
  \<^verbatim>\<open>Path(f).name\<close> on a POSIX system: the path is cut at the slashes, empty
  components and \<^verbatim>\<open>.\<close> are dropped, and the name is the last component left, or the
  empty string.
\<close>

definition path_name :: "string \<Rightarrow> string" where
  "path_name f =
     (let parts = filter (\<lambda>p. p \<noteq> [] \<and> p \<noteq> ''.'') (split_on CHR ''/'' f) in
      if parts = [] then [] else last parts)"

text \<open>
  \<^verbatim>\<open>run_manim\<close>: CalledProcessError is caught and gives \<^verbatim>\<open>None\<close>; so does a run
  that leaves no video.
\<close>

definition run_manim :: "env \<Rightarrow> string \<Rightarrow> nat \<Rightarrow> py_error + (string \<times> bool) option" where
  "run_manim env c idx =
     (case manim env c idx of
        Exit0 v \<Rightarrow> Inr v
      | NonZero err \<Rightarrow> Inr None
      | ToolMissing \<Rightarrow> Inl FileNotFoundError)"

text \<open>\<^verbatim>\<open>render_latex_to_svg\<close>: it catches nothing.\<close>

definition render_latex_to_svg :: "env \<Rightarrow> string \<Rightarrow> nat \<Rightarrow> py_error + string option" where
  "render_latex_to_svg env t i =
     (case typeset env t i of
        Exit0 svg \<Rightarrow> Inr svg
      | NonZero err \<Rightarrow> Inl CalledProcessError
      | ToolMissing \<Rightarrow> Inl FileNotFoundError)"

text \<open>
  The destination of a copy cannot be opened for writing: a file stands there without
  the owner-write bit, and the run is not privileged.
\<close>

definition blocked :: "env \<Rightarrow> dstate \<Rightarrow> string \<Rightarrow> bool" where
  "blocked env st dest =
     (case tmpdir st dest of
        None \<Rightarrow> False
      | Some cm \<Rightarrow> \<not> snd cm \<and> \<not> privileged env)"

text \<open>
  The second half of \<^verbatim>\<open>shutil.copy\<close>: the destination is opened for writing, filled,
  and given the permission bits of the source.
\<close>

definition write_file :: "env \<Rightarrow> string \<Rightarrow> string \<times> bool \<Rightarrow> dstate \<Rightarrow> py_error + dstate" where
  "write_file env dest cm st =
     (if blocked env st dest then Inl PermissionError
      else Inr (st\<lparr>tmpdir := (tmpdir st)(dest \<mapsto> cm)\<rparr>))"

text \<open>
  \<^verbatim>\<open>shutil.copy(src, dest)\<close> into the temporary directory: the source is opened first,
  then the destination.
\<close>

definition copy_in :: "env \<Rightarrow> string \<Rightarrow> string \<Rightarrow> dstate \<Rightarrow> py_error + dstate" where
  "copy_in env src dest st =
     (case open_read env src of
        Inl e \<Rightarrow> Inl e
      | Inr cm \<Rightarrow> write_file env dest cm st)"

definition append_entry :: "entry \<Rightarrow> dstate \<Rightarrow> dstate" where
  "append_entry e st = st\<lparr>sequence := sequence st @ [e]\<rparr>"

text \<open>
  The body of \<^verbatim>\<open>for i, el in enumerate(elements)\<close>:
  \<^verbatim>\<open>
    if el["type"] == "pagebreak":
        sequence.append({"type": "pagebreak"})
        continue
    if el["type"] == "manim":
        vpath = run_manim(el["code"], tmpdir, i)
        if vpath and vpath.exists():
            rel = f"videos/scene_{i}.mp4"
            ...
            shutil.copy(vpath, dest)
            sequence.append({"type": "video", "file": rel})
        else:
            sequence.append({"type": "error", "text": f"Manim render failed snippet {i}"})
        continue
    if el["type"] in ("video", "image"):
        rel = f"{el['type']}s/{Path(el['file']).name}"
        ...
        if Path(el["file"]).exists():
            shutil.copy(el["file"], dest)
        sequence.append({**el, "file": rel})
        continue
    if el["type"] == "latex":
        rel_svg = f"latex/block_{i}.svg"
        ...
        try:
            render_latex_to_svg(el["text"], dest_svg)
            sequence.append({"type": "latex", "file": rel_svg})
        except subprocess.CalledProcessError as e:
            ...
            sequence.append({"type": "error", "text": f"LaTeX render failed for block {i}"})
  \<close>
  \<open>Inl\<close> is an exception that leaves the loop. The file that the typesetting tools
  write is new and writable.
\<close>

fun dispatch_step :: "env \<Rightarrow> nat \<Rightarrow> element \<Rightarrow> dstate \<Rightarrow> py_error + dstate" where
  "dispatch_step env i Pagebreak st = Inr (append_entry EPagebreak st)"
| "dispatch_step env i (Manim c) st =
     (case run_manim env c i of
        Inl e \<Rightarrow> Inl e
      | Inr None \<Rightarrow> Inr (append_entry (EError (''Manim render failed snippet '' @ str_nat i)) st)
      | Inr (Some v) \<Rightarrow>
          (case write_file env (''videos/scene_'' @ str_nat i @ ''.mp4'') v st of
             Inl e \<Rightarrow> Inl e
           | Inr st' \<Rightarrow>
               Inr (append_entry (EVideo (''videos/scene_'' @ str_nat i @ ''.mp4'')) st')))"
| "dispatch_step env i (Media k f w h s) st =
     (let rel = kind_name k @ ''s/'' @ path_name f in
      case path_exists env f of
        Inl e \<Rightarrow> Inl e
      | Inr ex \<Rightarrow>
          if ex then
            (case copy_in env f rel st of
               Inl e \<Rightarrow> Inl e
             | Inr st' \<Rightarrow> Inr (append_entry (EMedia k rel w h s) st'))
          else Inr (append_entry (EMedia k rel w h s) st))"
| "dispatch_step env i (Latex t) st =
     (case render_latex_to_svg env t i of
        Inr svg \<Rightarrow>
          Inr (append_entry (ELatex (''latex/block_'' @ str_nat i @ ''.svg''))
                (case svg of
                   None \<Rightarrow> st
                 | Some c \<Rightarrow>
                     st\<lparr>tmpdir := (tmpdir st)(''latex/block_'' @ str_nat i @ ''.svg'' \<mapsto> (c, True))\<rparr>))
      | Inl e \<Rightarrow>
          if e = CalledProcessError
          then Inr (append_entry (EError (''LaTeX render failed for block '' @ str_nat i)) st)
          else Inl e)"

fun dispatch_loop :: "env \<Rightarrow> nat \<Rightarrow> element list \<Rightarrow> dstate \<Rightarrow> py_error + dstate" where
  "dispatch_loop env i [] st = Inr st"
| "dispatch_loop env i (el # els) st =
     (case dispatch_step env i el st of
        Inl e \<Rightarrow> Inl e
      | Inr st' \<Rightarrow> dispatch_loop env (Suc i) els st')"

text \<open>
  The entry the loop body appends for the element \<open>el\<close> at index \<open>i\<close> when it runs on
  its own, from an empty sequence; \<open>None\<close> when the body raises.
\<close>

definition artifact_of :: "env \<Rightarrow> nat \<Rightarrow> element \<Rightarrow> entry option" where
  "artifact_of env i el =
     (case dispatch_step env i el \<lparr>sequence = [], tmpdir = Map.empty\<rparr> of
        Inl e \<Rightarrow> None
      | Inr st \<Rightarrow> Some (last (sequence st)))"

text \<open>
  An environment to start examples from: nothing on disk, no tool installed, an
  unprivileged run.
\<close>

definition quiet_env :: env where
  "quiet_env =
     \<lparr>stat = (\<lambda>p. Missing), open_read = (\<lambda>p. Inl FileNotFoundError), privileged = False,
      typeset = (\<lambda>t i. ToolMissing), manim = (\<lambda>c i. ToolMissing)\<rparr>"

section \<open>Command line\<close>

text \<open>\<^verbatim>\<open>list.index\<close>: the position of the first equal item; \<open>None\<close> is the ValueError.\<close>

fun list_index :: "string list \<Rightarrow> string \<Rightarrow> nat option" where
  "list_index [] x = None"
| "list_index (a # as) x =
     (if a = x then Some 0 else map_option Suc (list_index as x))"

datatype invocation = Usage | Raised py_error | Proceed string string

text \<open>
  The first lines of \<^verbatim>\<open>main\<close>:
  \<^verbatim>\<open>
    if len(sys.argv) < 3:
        print("Usage: python create2.py <input.tex> -o <output.pandora>")
        return
    infile = Path(sys.argv[1])
    outfile = Path(sys.argv[sys.argv.index("-o") + 1])
  \<close>
  \<open>argv\<close> holds the program name first.
\<close>

definition main_args :: "string list \<Rightarrow> invocation" where
  "main_args argv =
     (if length argv < 3 then Usage
      else (case list_index argv ''-o'' of
              None \<Rightarrow> Raised ValueError
            | Some j \<Rightarrow>
                if Suc j < length argv then Proceed (argv ! 1) (argv ! Suc j)
                else Raised IndexError))"


text \<open>
  \<^verbatim>\<open>main\<close>: the usage message, an exception that ends the run, or the archive at the
  output path with the layout, the sequence and the artifact files.
\<close>

datatype outcome = UsagePrinted | Crashed py_error | Built string string dstate

definition main :: "env \<Rightarrow> string list \<Rightarrow> outcome" where
  "main env argv =
     (case main_args argv of
        Usage \<Rightarrow> UsagePrinted
      | Raised e \<Rightarrow> Crashed e
      | Proceed infile outfile \<Rightarrow>
          (case open_read env infile of
             Inl e \<Rightarrow> Crashed e
           | Inr (tex, m) \<Rightarrow>
               (case parse_latex tex of
                  (elements, layout) \<Rightarrow>
                    (case dispatch_loop env 0 elements \<lparr>sequence = [], tmpdir = Map.empty\<rparr> of
                       Inl e \<Rightarrow> Crashed e
                     | Inr st \<Rightarrow> Built outfile layout st))))"

section \<open>Results\<close>

subsection \<open>The loop of main\<close>

lemma dispatch_step_entry:
  assumes "dispatch_step env i el st = Inr st'"
  shows "\<exists>e. sequence st' = sequence st @ [e] \<and> artifact_of env i el = Some e"
proof (cases el)
  case (Latex t)
  with assms show ?thesis
    by (auto simp: artifact_of_def append_entry_def split: sum.splits option.splits if_splits)
next
  case (Manim c)
  with assms show ?thesis
    by (auto simp: artifact_of_def append_entry_def write_file_def blocked_def
        split: sum.splits option.splits if_splits)
next
  case (Media k f w h s)
  with assms show ?thesis
    by (auto simp: artifact_of_def append_entry_def copy_in_def write_file_def blocked_def
        Let_def split: sum.splits option.splits if_splits)
next
  case Pagebreak
  with assms show ?thesis
    by (auto simp: artifact_of_def append_entry_def)
qed

lemma dispatch_loop_entries:
  "dispatch_loop env i els st = Inr st' \<Longrightarrow>
     \<exists>es. sequence st' = sequence st @ es \<and> length es = length els \<and>
       (\<forall>j<length els. artifact_of env (i + j) (els ! j) = Some (es ! j))"
proof (induction els arbitrary: i st)
  case Nil
  then show ?case by simp
next
  case (Cons el els)
  from Cons.prems obtain st1 where s1: "dispatch_step env i el st = Inr st1"
    and l1: "dispatch_loop env (Suc i) els st1 = Inr st'"
    by (auto split: sum.splits)
  from dispatch_step_entry [OF s1] obtain e where e: "sequence st1 = sequence st @ [e]"
    "artifact_of env i el = Some e" by blast
  from Cons.IH [OF l1] obtain es where es: "sequence st' = sequence st1 @ es"
    "length es = length els"
    "\<forall>j<length els. artifact_of env (Suc i + j) (els ! j) = Some (es ! j)" by blast
  have "\<forall>j<length (el # els). artifact_of env (i + j) ((el # els) ! j) = Some ((e # es) ! j)"
  proof (intro allI impI)
    fix j assume "j < length (el # els)"
    then show "artifact_of env (i + j) ((el # els) ! j) = Some ((e # es) ! j)"
      using e(2) es(3) by (cases j) auto
  qed
  with e es show ?case by (intro exI [of _ "e # es"]) simp
qed

lemma dispatch_run_length:
  assumes "dispatch_loop env 0 els \<lparr>sequence = [], tmpdir = Map.empty\<rparr> = Inr st'"
  shows "length (sequence st') = length els"
  using dispatch_loop_entries [OF assms] by auto

lemma dispatch_run_entry:
  assumes "dispatch_loop env 0 els \<lparr>sequence = [], tmpdir = Map.empty\<rparr> = Inr st'"
    and "i < length els"
  shows "artifact_of env i (els ! i) = Some (sequence st' ! i)"
  using dispatch_loop_entries [OF assms(1)] assms(2) by auto

lemma dispatch_loop_append:
  "dispatch_loop env i (xs @ ys) st =
     (case dispatch_loop env i xs st of
        Inl e \<Rightarrow> Inl e
      | Inr st' \<Rightarrow> dispatch_loop env (i + length xs) ys st')"
  by (induction xs arbitrary: i st) (auto split: sum.splits)


lemma str_nat_digits:
  "str_nat 0 = ''0''" "str_nat 1 = ''1''" "str_nat (Suc 0) = ''1''" "str_nat 2 = ''2''"
  by code_simp+

lemma main_args_full:
  "main_args [''create.py'', ''in.tex'', ''-o'', ''out.pandora''] = Proceed ''in.tex'' ''out.pandora''"
  by (simp add: main_args_def)

text \<open>
  C1. When \<^verbatim>\<open>main\<close> builds an archive, the text it read is segmented into \<open>elements\<close>,
  the sequence of the manifest has as many entries as there are elements, and the entry
  at each index \<open>i\<close> is the one the loop body produces for the \<open>i\<close>-th element at index
  \<open>i\<close> on its own: it does not depend on the other elements, so a failed conversion
  elsewhere neither shifts nor changes it.
\<close>

theorem manifest_one_to_one:
  assumes "main env argv = Built out lay st"
  shows "\<exists>tex m elements. open_read env (argv ! 1) = Inr (tex, m) \<and>
           parse_latex tex = (elements, lay) \<and>
           length (sequence st) = length elements \<and>
           (\<forall>i<length elements. artifact_of env i (elements ! i) = Some (sequence st ! i))"
proof -
  from assms obtain infile outfile tex m elements where
    "main_args argv = Proceed infile outfile" and d: "open_read env infile = Inr (tex, m)"
    and p: "parse_latex tex = (elements, lay)"
    and l: "dispatch_loop env 0 elements \<lparr>sequence = [], tmpdir = Map.empty\<rparr> = Inr st"
    by (auto simp: main_def split: invocation.splits prod.splits sum.splits)
  then have "infile = argv ! 1"
    by (auto simp: main_args_def split: if_splits option.splits)
  with d p dispatch_run_entry [OF l] dispatch_run_length [OF l] show ?thesis by auto
qed

lemma parse_sample_mixed:
  "parse_latex (''a'' @ newpage @ manim_open @ ''c}'') =
     ([Manim ''c'', Latex ''a'', Pagebreak], ''single-column'')"
  by code_simp

theorem manifest_one_to_one_witness:
  "main (quiet_env
       \<lparr>open_read := (\<lambda>p. if p = ''in.tex''
                          then Inr (''a'' @ newpage @ manim_open @ ''c}'', True)
                          else Inl FileNotFoundError),
        typeset := (\<lambda>t i. NonZero ''! Undefined control sequence.''),
        manim := (\<lambda>c i. Exit0 (Some (''MP4'', True)))\<rparr>)
      [''create.py'', ''in.tex'', ''-o'', ''out.pandora''] =
     Built ''out.pandora'' ''single-column''
       \<lparr>sequence = [EVideo ''videos/scene_0.mp4'', EError ''LaTeX render failed for block 1'',
                    EPagebreak],
        tmpdir = [''videos/scene_0.mp4'' \<mapsto> (''MP4'', True)]\<rparr>
   \<and> (\<exists>tex m elements.
        open_read (quiet_env
            \<lparr>open_read := (\<lambda>p. if p = ''in.tex''
                               then Inr (''a'' @ newpage @ manim_open @ ''c}'', True)
                               else Inl FileNotFoundError),
             typeset := (\<lambda>t i. NonZero ''! Undefined control sequence.''),
             manim := (\<lambda>c i. Exit0 (Some (''MP4'', True)))\<rparr>)
          ([''create.py'', ''in.tex'', ''-o'', ''out.pandora''] ! 1) = Inr (tex, m) \<and>
        parse_latex tex = (elements, ''single-column'') \<and>
        length [EVideo ''videos/scene_0.mp4'', EError ''LaTeX render failed for block 1'',
                EPagebreak] = length elements \<and>
        (\<forall>i<length elements.
           artifact_of (quiet_env
               \<lparr>open_read := (\<lambda>p. if p = ''in.tex''
                                  then Inr (''a'' @ newpage @ manim_open @ ''c}'', True)
                                  else Inl FileNotFoundError),
                typeset := (\<lambda>t i. NonZero ''! Undefined control sequence.''),
                manim := (\<lambda>c i. Exit0 (Some (''MP4'', True)))\<rparr>) i (elements ! i) =
           Some ([EVideo ''videos/scene_0.mp4'', EError ''LaTeX render failed for block 1'',
                  EPagebreak] ! i)))"
proof -
  let ?env = "quiet_env
       \<lparr>open_read := (\<lambda>p. if p = ''in.tex''
                          then Inr (''a'' @ newpage @ manim_open @ ''c}'', True)
                          else Inl FileNotFoundError),
        typeset := (\<lambda>t i. NonZero ''! Undefined control sequence.''),
        manim := (\<lambda>c i. Exit0 (Some (''MP4'', True)))\<rparr>"
  have h: "main ?env [''create.py'', ''in.tex'', ''-o'', ''out.pandora''] =
     Built ''out.pandora'' ''single-column''
       \<lparr>sequence = [EVideo ''videos/scene_0.mp4'', EError ''LaTeX render failed for block 1'',
                    EPagebreak],
        tmpdir = [''videos/scene_0.mp4'' \<mapsto> (''MP4'', True)]\<rparr>"
    using parse_sample_mixed
    by (simp add: main_def main_args_full run_manim_def render_latex_to_svg_def
        append_entry_def str_nat_digits write_file_def blocked_def quiet_env_def)
  from manifest_one_to_one [OF h, unfolded dstate.select_convs] h show ?thesis
    by (intro conjI) assumption+
qed

text \<open>
  C5. Let the elements before index \<open>k\<close> have been processed, and let the converter of
  the element at index \<open>k\<close> (typesetting for a text block, animation for an animation
  block) exit with a non-zero status. Then the body records an error entry whose message
  ends with the index \<open>k\<close>, the entry stands at position \<open>k\<close>, and the loop goes on with
  all the elements after it; the entry is still at position \<open>k\<close> in a finished run.
\<close>

theorem converter_failure_isolated:
  assumes "(el = Latex t \<and> typeset env t (length pre) = NonZero err \<and>
             msg = ''LaTeX render failed for block '')
         \<or> (el = Manim t \<and> manim env t (length pre) = NonZero err \<and>
             msg = ''Manim render failed snippet '')"
    and "dispatch_loop env 0 pre \<lparr>sequence = [], tmpdir = Map.empty\<rparr> = Inr st"
  shows "dispatch_loop env 0 (pre @ el # rest) \<lparr>sequence = [], tmpdir = Map.empty\<rparr> =
           dispatch_loop env (Suc (length pre)) rest
             (st\<lparr>sequence := sequence st @ [EError (msg @ str_nat (length pre))]\<rparr>)
       \<and> length (sequence st) = length pre
       \<and> (\<forall>st'. dispatch_loop env 0 (pre @ el # rest) \<lparr>sequence = [], tmpdir = Map.empty\<rparr> = Inr st'
            \<longrightarrow> length (sequence st') = length (pre @ el # rest) \<and>
                sequence st' ! length pre = EError (msg @ str_nat (length pre)))"
proof -
  from assms(1) have step: "dispatch_step env (length pre) el st =
      Inr (st\<lparr>sequence := sequence st @ [EError (msg @ str_nat (length pre))]\<rparr>)"
    by (auto simp: render_latex_to_svg_def run_manim_def append_entry_def)
  then have art: "artifact_of env (length pre) el = Some (EError (msg @ str_nat (length pre)))"
    using dispatch_step_entry [OF step] by auto
  have len: "length (sequence st) = length pre"
    using dispatch_loop_entries [OF assms(2)] by auto
  have cont: "dispatch_loop env 0 (pre @ el # rest) \<lparr>sequence = [], tmpdir = Map.empty\<rparr> =
      dispatch_loop env (Suc (length pre)) rest
        (st\<lparr>sequence := sequence st @ [EError (msg @ str_nat (length pre))]\<rparr>)"
    by (simp add: dispatch_loop_append assms(2) step)
  have fin: "length (sequence st') = length (pre @ el # rest) \<and>
      sequence st' ! length pre = EError (msg @ str_nat (length pre))"
    if r: "dispatch_loop env 0 (pre @ el # rest) \<lparr>sequence = [], tmpdir = Map.empty\<rparr> = Inr st'"
    for st'
  proof -
    have "length pre < length (pre @ el # rest)" by simp
    from dispatch_run_entry [OF r this] dispatch_run_length [OF r] art show ?thesis by simp
  qed
  from cont len fin show ?thesis by blast
qed

theorem converter_failure_isolated_witness:
  "dispatch_loop (quiet_env\<lparr>typeset := (\<lambda>t i. NonZero ''! Missing $ inserted.''),
                            manim := (\<lambda>c i. Exit0 None)\<rparr>) 0
      ([Pagebreak] @ Latex ''x_1'' # [Pagebreak]) \<lparr>sequence = [], tmpdir = Map.empty\<rparr> =
     Inr \<lparr>sequence = [EPagebreak, EError ''LaTeX render failed for block 1'', EPagebreak],
          tmpdir = Map.empty\<rparr>"
proof -
  let ?env = "quiet_env\<lparr>typeset := (\<lambda>t i. NonZero ''! Missing $ inserted.''),
                            manim := (\<lambda>c i. Exit0 None)\<rparr>"
  have a: "(Latex ''x_1'' = Latex ''x_1'' \<and>
        typeset ?env ''x_1'' (length [Pagebreak]) = NonZero ''! Missing $ inserted.'' \<and>
        ''LaTeX render failed for block '' = ''LaTeX render failed for block '')
      \<or> (Latex ''x_1'' = Manim ''x_1'' \<and>
        manim ?env ''x_1'' (length [Pagebreak]) = NonZero ''! Missing $ inserted.'' \<and>
        ''LaTeX render failed for block '' = ''Manim render failed snippet '')"
    by simp
  have b: "dispatch_loop ?env 0 [Pagebreak] \<lparr>sequence = [], tmpdir = Map.empty\<rparr> =
      Inr \<lparr>sequence = [EPagebreak], tmpdir = Map.empty\<rparr>"
    by (simp add: append_entry_def)
  from converter_failure_isolated [OF a b, of "[Pagebreak]"] show ?thesis
    by (simp add: append_entry_def str_nat_digits render_latex_to_svg_def)
qed

lemma path_name_samples:
  "path_name ''figs/plot.png'' = ''plot.png''" "path_name ''old/plot.png'' = ''plot.png''"
  "path_name ''foo.png'' = ''foo.png''" "path_name ''clips/intro.mp4'' = ''intro.mp4''"
  by code_simp+




lemma parse_width_directive:
  "parse_latex (bsl # ''image[width=50%]{foo.png}'') =
     ([Media Image ''foo.png'' (Some ''50%'') None None], ''single-column'')"
  by code_simp

text \<open>
  C8. When the input file holds the directive \<^verbatim>\<open>\image[width=50%]{foo.png}\<close> and
  \<^verbatim>\<open>foo.png\<close> is a file on disk, the run builds an archive whose sequence is one image
  entry with width \<^verbatim>\<open>50%\<close>, no height and no scale, and file \<^verbatim>\<open>images/foo.png\<close>, and
  \<^verbatim>\<open>foo.png\<close> is copied to \<^verbatim>\<open>images/foo.png\<close>, content and permission bit.
\<close>

theorem image_width_directive:
  assumes "open_read env ''in.tex'' = Inr (bsl # ''image[width=50%]{foo.png}'', m)"
    and "stat env ''foo.png'' = Found"
    and "open_read env ''foo.png'' = Inr (c, wr)"
  shows "main env [''create.py'', ''in.tex'', ''-o'', ''out.pandora''] =
     Built ''out.pandora'' ''single-column''
       \<lparr>sequence = [EMedia Image ''images/foo.png'' (Some ''50%'') None None],
        tmpdir = [''images/foo.png'' \<mapsto> (c, wr)]\<rparr>"
  using assms
  by (simp add: main_def main_args_full parse_width_directive path_name_samples copy_in_def
      write_file_def blocked_def path_exists_def append_entry_def Let_def)

theorem image_width_directive_witness:
  "main (quiet_env
       \<lparr>stat := (\<lambda>p. if p = ''foo.png'' then Found else Missing),
        open_read := (\<lambda>p. if p = ''in.tex'' then Inr (bsl # ''image[width=50%]{foo.png}'', True)
                          else if p = ''foo.png'' then Inr (''PNG'', True)
                          else Inl FileNotFoundError)\<rparr>)
      [''create.py'', ''in.tex'', ''-o'', ''out.pandora''] =
     Built ''out.pandora'' ''single-column''
       \<lparr>sequence = [EMedia Image ''images/foo.png'' (Some ''50%'') None None],
        tmpdir = [''images/foo.png'' \<mapsto> (''PNG'', True)]\<rparr>"
  by (rule image_width_directive) simp_all




subsection \<open>The second pass\<close>

lemma sub_manim_acc:
  "sub_manim acc t = (acc @ map Manim (inline_codes t), snd (sub_manim [] t))"
proof (induction "length t" arbitrary: acc t rule: less_induct)
  case less
  show ?case
  proof (cases t)
    case Nil
    then show ?thesis by simp
  next
    case (Cons c cs)
    show ?thesis
    proof (cases "prefix manim_open (c # cs) \<and> CHR ''}'' \<in> set (drop 7 (c # cs))")
      case True
      define code where "code = takeWhile not_rbrace (drop 7 (c # cs))"
      define rest where "rest = tl (dropWhile not_rbrace (drop 7 (c # cs)))"
      have "length rest \<le> length (dropWhile not_rbrace (drop 7 (c # cs)))"
        by (simp add: rest_def)
      also have "\<dots> \<le> length (drop 7 (c # cs))"
        by (rule length_dropWhile_le)
      also have "\<dots> < length (c # cs)"
        by simp
      finally have lt: "length rest < length t"
        by (simp add: Cons)
      have a: "sub_manim ex (c # cs) = sub_manim (ex @ [Manim code]) rest" for ex
        unfolding code_def rest_def by (simp only: sub_manim.simps True if_True simp_thms)
      have c: "inline_codes (c # cs) = code # inline_codes rest"
        unfolding code_def rest_def by (simp only: inline_codes.simps True if_True simp_thms)
      have "sub_manim (acc @ [Manim code]) rest =
          ((acc @ [Manim code]) @ map Manim (inline_codes rest), snd (sub_manim [] rest))"
        by (rule less.hyps [OF lt])
      moreover have "sub_manim ([] @ [Manim code]) rest =
          (([] @ [Manim code]) @ map Manim (inline_codes rest), snd (sub_manim [] rest))"
        by (rule less.hyps [OF lt])
      ultimately show ?thesis
        by (simp only: Cons a c snd_conv list.map append.simps append_assoc)
    next
      case False
      have lt: "length cs < length t" by (simp add: Cons)
      have a: "sub_manim ex (c # cs) = (fst (sub_manim ex cs), c # snd (sub_manim ex cs))" for ex
        by (simp only: sub_manim.simps False if_False simp_thms case_prod_beta)
      have c: "inline_codes (c # cs) = inline_codes cs"
        by (simp only: inline_codes.simps False if_False simp_thms)
      have "sub_manim acc cs = (acc @ map Manim (inline_codes cs), snd (sub_manim [] cs))"
        by (rule less.hyps [OF lt])
      then show ?thesis
        by (simp only: Cons a c fst_conv snd_conv)
    qed
  qed
qed

lemma extract_matches_acc:
  "extract_matches ty ms (acc, part) =
     (acc @ map (\<lambda>(g, opt, path). parse_media ty opt path) ms,
      snd (extract_matches ty ms ([], part)))"
proof (induction ms arbitrary: acc part)
  case Nil
  then show ?case by simp
next
  case (Cons m ms)
  obtain g opt path where m: "m = (g, opt, path)" by (cases m) auto
  have "extract_matches ty (m # ms) (acc, part) =
      extract_matches ty ms (acc @ [parse_media ty opt path], remove_all g part)"
    by (simp add: m)
  also have "\<dots> = ((acc @ [parse_media ty opt path]) @
        map (\<lambda>(g, opt, path). parse_media ty opt path) ms,
      snd (extract_matches ty ms ([], remove_all g part)))"
    by (rule Cons.IH)
  also have "snd (extract_matches ty ms ([], remove_all g part)) =
      snd (extract_matches ty (m # ms) ([], part))"
    using Cons.IH [of "[] @ [parse_media ty opt path]" "remove_all g part"] by (simp add: m)
  finally show ?case by (simp add: m)
qed

lemma parse_media_not_manim: "\<not> is_manim (parse_media ty opt path)"
  by (simp add: parse_media_def)

lemma extract_media_acc:
  "\<exists>es. extract_media ty (acc, part) = (acc @ es, snd (extract_media ty ([], part))) \<and>
        fst (extract_media ty ([], part)) = es \<and> (\<forall>e\<in>set es. \<not> is_manim e)"
proof -
  let ?ms = "finditer_media (kind_name ty) part"
  let ?es = "map (\<lambda>(g, opt, path). parse_media ty opt path) ?ms"
  have "extract_media ty (acc, part) = (acc @ ?es, snd (extract_media ty ([], part)))"
    using extract_matches_acc [of ty ?ms acc part] by (simp add: extract_media_def)
  moreover have "fst (extract_media ty ([], part)) = ?es"
  proof -
    have "extract_matches ty ?ms ([], part) =
        ([] @ ?es, snd (extract_matches ty ?ms ([], part)))"
      by (rule extract_matches_acc)
    then have "fst (extract_matches ty ?ms ([], part)) = ?es"
      by (metis fst_conv append_Nil)
    then show ?thesis by (simp add: extract_media_def)
  qed
  moreover have "\<forall>e\<in>set ?es. \<not> is_manim e"
    by (auto simp: parse_media_not_manim)
  ultimately show ?thesis by blast
qed

lemma expand_part_acc:
  "\<exists>es. expand_part acc part = acc @ es \<and> expand_part [] part = es \<and>
        (\<forall>e\<in>set es. \<not> is_manim e)"
proof -
  obtain e1 where e1: "extract_media Image (acc, part) =
      (acc @ e1, snd (extract_media Image ([], part)))"
    "fst (extract_media Image ([], part)) = e1" "\<forall>e\<in>set e1. \<not> is_manim e"
    using extract_media_acc [of Image acc part] by blast
  let ?p1 = "snd (extract_media Image ([], part))"
  obtain e2 where e2: "extract_media Video (acc @ e1, ?p1) =
      ((acc @ e1) @ e2, snd (extract_media Video ([], ?p1)))"
    "fst (extract_media Video ([], ?p1)) = e2" "\<forall>e\<in>set e2. \<not> is_manim e"
    using extract_media_acc [of Video "acc @ e1" ?p1] by blast
  obtain e2' where e2': "extract_media Video (e1, ?p1) =
      (e1 @ e2', snd (extract_media Video ([], ?p1)))"
    "fst (extract_media Video ([], ?p1)) = e2'"
    using extract_media_acc [of Video e1 ?p1] by blast
  from e2(2) e2'(2) have eq: "e2' = e2" by simp
  have i0: "extract_media Image ([], part) = (e1, ?p1)"
    using e1(2) by (simp add: prod_eq_iff)
  let ?p2 = "snd (extract_media Video ([], ?p1))"
  let ?tail = "if strip ?p2 \<noteq> [] then [Latex (strip ?p2)] else []"
  let ?es = "if strip part = [] then []
      else if strip part = newpage \<or> strip part = breakpage then [Pagebreak]
      else e1 @ e2 @ ?tail"
  have "expand_part acc part = acc @ ?es"
    using e1(1) e2(1) by (simp add: expand_part_def)
  moreover have "expand_part [] part = ?es"
    using i0 e2'(1) eq by (simp add: expand_part_def)
  moreover have "\<forall>e\<in>set ?es. \<not> is_manim e"
    using e1(3) e2(3) by auto
  ultimately show ?thesis by blast
qed

lemma foldl_expand_part_acc:
  "foldl expand_part acc parts = acc @ foldl expand_part [] parts \<and>
     (\<forall>e\<in>set (foldl expand_part [] parts). \<not> is_manim e)"
proof (induction parts rule: rev_induct)
  case Nil
  then show ?case by simp
next
  case (snoc p parts)
  obtain es where es: "expand_part (foldl expand_part acc parts) p =
      foldl expand_part acc parts @ es" "\<forall>e\<in>set es. \<not> is_manim e"
    using expand_part_acc [of "foldl expand_part acc parts" p] by blast
  obtain es' where es': "expand_part (foldl expand_part [] parts) p =
      foldl expand_part [] parts @ es'" "expand_part [] p = es'"
    using expand_part_acc [of "foldl expand_part [] parts" p] by blast
  from es(1) expand_part_acc [of "foldl expand_part acc parts" p] es'(2)
  have "es = es'" by auto
  with es es' snoc.IH show ?case by auto
qed

text \<open>
  C9. For the text \<open>t\<close> of a first-pass text block, the second pass appends to
  \<^verbatim>\<open>expanded\<close> first one animation element for each inline directive of \<open>t\<close>, in their
  order of occurrence, and after all of them the elements of the rest of the block, none
  of which is an animation element (they are page breaks, images, videos and text):
  this holds wherever the directives stand in \<open>t\<close>.
\<close>

theorem inline_animations_first:
  "expand_text expanded t = expanded @ map Manim (inline_codes t) @ residual_elements t \<and>
     (\<forall>e\<in>set (residual_elements t). \<not> is_manim e)"
proof -
  have "sub_manim expanded t =
      (expanded @ map Manim (inline_codes t), snd (sub_manim [] t))"
    by (rule sub_manim_acc)
  then have "expand_text expanded t =
      foldl expand_part (expanded @ map Manim (inline_codes t))
        (re_split_pages (snd (sub_manim [] t)))"
    by (simp add: expand_text_def)
  with foldl_expand_part_acc [of "expanded @ map Manim (inline_codes t)"
      "re_split_pages (snd (sub_manim [] t))"]
  show ?thesis by (simp add: residual_elements_def)
qed

theorem inline_animations_first_witness:
  "expand_text [Pagebreak] (''see '' @ bsl # ''image[]{a.png} then'' @ newpage @ manim_open @ ''x=1} and '' @ manim_open @ ''y=2}'') =
     [Pagebreak, Manim ''x=1'', Manim ''y=2'', Media Image ''a.png'' None None None,
      Latex ''see  then'', Pagebreak, Latex ''and'']
   \<and> inline_codes (''see '' @ bsl # ''image[]{a.png} then'' @ newpage @ manim_open @ ''x=1} and '' @ manim_open @ ''y=2}'') = [''x=1'', ''y=2'']
   \<and> residual_elements (''see '' @ bsl # ''image[]{a.png} then'' @ newpage @ manim_open @ ''x=1} and '' @ manim_open @ ''y=2}'') =
     [Media Image ''a.png'' None None None, Latex ''see  then'', Pagebreak, Latex ''and'']"
proof -
  let ?t = "''see '' @ bsl # ''image[]{a.png} then'' @ newpage @ manim_open @ ''x=1} and '' @ manim_open @ ''y=2}''"
  have c: "inline_codes ?t = [''x=1'', ''y=2'']" by code_simp
  have r: "residual_elements ?t =
      [Media Image ''a.png'' None None None, Latex ''see  then'', Pagebreak, Latex ''and'']"
    by code_simp
  from inline_animations_first [of "[Pagebreak]" ?t] c r show ?thesis by simp
qed

subsection \<open>Layout detection\<close>

lemma marker_at_Nil: "\<not> marker_at []"
  by (simp add: marker_at_def)

lemma line_marker_marker_at: "line_marker s \<Longrightarrow> marker_at s"
  by (auto simp: line_marker_def marker_at_def)

lemma marker_at_cases:
  "marker_at s \<Longrightarrow> line_marker s \<or> prefix (bsl # ''document'') s"
  by (auto simp: line_marker_def marker_at_def prefix_def)

lemma search_marker_iff:
  "search_marker bol s \<longleftrightarrow>
     (bol \<and> marker_at s) \<or> (\<exists>pre post. s = pre @ newline # post \<and> marker_at post)"
proof (induction s arbitrary: bol)
  case Nil
  then show ?case by (simp add: marker_at_Nil)
next
  case (Cons c cs)
  have "(\<exists>pre post. c # cs = pre @ newline # post \<and> marker_at post) \<longleftrightarrow>
      (c = newline \<and> marker_at cs) \<or> (\<exists>pre post. cs = pre @ newline # post \<and> marker_at post)"
    (is "?L \<longleftrightarrow> ?R")
  proof
    assume ?L
    then obtain pre post where p: "c # cs = pre @ newline # post" "marker_at post" by blast
    show ?R
    proof (cases pre)
      case Nil
      with p show ?thesis by simp
    next
      case (Cons x xs)
      with p have "cs = xs @ newline # post" by simp
      with p(2) show ?thesis by blast
    qed
  next
    assume ?R
    then show ?L
    proof
      assume "c = newline \<and> marker_at cs"
      then have "c # cs = [] @ newline # cs \<and> marker_at cs" by simp
      then show ?L by blast
    next
      assume "\<exists>pre post. cs = pre @ newline # post \<and> marker_at post"
      then obtain pre post where "cs = pre @ newline # post" "marker_at post" by blast
      then have "c # cs = (c # pre) @ newline # post \<and> marker_at post" by simp
      then show ?L by blast
    qed
  qed
  with Cons.IH [of "c = newline"] show ?case by auto
qed

text \<open>
  The value of \<^verbatim>\<open>layout\<close>: \<^verbatim>\<open>two-column\<close> exactly when the pattern matches at the start of
  the text or right after a line feed.
\<close>

lemma detect_layout_iff:
  "detect_layout tex = ''two-column'' \<longleftrightarrow>
     (\<exists>pre post. tex = pre @ post \<and> (pre = [] \<or> last pre = newline) \<and> marker_at post)"
proof -
  have "(\<exists>pre post. tex = pre @ post \<and> (pre = [] \<or> last pre = newline) \<and> marker_at post) \<longleftrightarrow>
      marker_at tex \<or> (\<exists>pre post. tex = pre @ newline # post \<and> marker_at post)"
    (is "?L \<longleftrightarrow> ?R")
  proof
    assume ?L
    then obtain pre post where p: "tex = pre @ post" "pre = [] \<or> last pre = newline"
      "marker_at post" by blast
    show ?R
    proof (cases "pre = []")
      case True
      with p show ?thesis by simp
    next
      case False
      with p(2) have "pre = butlast pre @ [newline]"
        by (metis append_butlast_last_id)
      with p(1) have "tex = butlast pre @ newline # post"
        by (metis append.assoc append_Cons append_Nil)
      with p(3) show ?thesis by blast
    qed
  next
    assume ?R
    then show ?L
    proof
      assume "marker_at tex"
      then have "tex = [] @ tex \<and> ([] = [] \<or> last [] = newline) \<and> marker_at tex" by simp
      then show ?L by blast
    next
      assume "\<exists>pre post. tex = pre @ newline # post \<and> marker_at post"
      then obtain pre post where "tex = pre @ newline # post" "marker_at post" by blast
      then have "tex = (pre @ [newline]) @ post \<and>
          (pre @ [newline] = [] \<or> last (pre @ [newline]) = newline) \<and> marker_at post"
        by simp
      then show ?L by blast
    qed
  qed
  then show ?thesis
    by (simp add: detect_layout_def search_marker_iff)
qed

text \<open>
  The third spelling of the pattern is \<^verbatim>\<open>\document[\<close>, not \<^verbatim>\<open>\documentclass[\<close>: the
  two-column option of a document class is not detected, even at the start of a line.
\<close>

lemma documentclass_option_not_detected:
  "detect_layout (bsl # ''documentclass[twocolumn]{article}'') = ''single-column''"
  by code_simp

text \<open>
  C3, as the code has it. If a line of the text (the first, one in the middle or the last
  one) begins with \<^verbatim>\<open>%%\<close>, optional white space and \<^verbatim>\<open>twocolumn\<close>, or with
  \<^verbatim>\<open>\twocolumn\<close>, the layout is \<^verbatim>\<open>two-column\<close>. If no line begins with one of these or
  with \<^verbatim>\<open>\document\<close>, the layout is \<^verbatim>\<open>single-column\<close>. The layout is a function of the
  text alone, so detecting twice gives the same value.
\<close>

theorem layout_marker_at_line_start:
  "(\<forall>pre post. tex = pre @ post \<and> (pre = [] \<or> last pre = newline) \<and> line_marker post
      \<longrightarrow> detect_layout tex = ''two-column'')
   \<and> ((\<forall>pre post. tex = pre @ post \<and> (pre = [] \<or> last pre = newline)
         \<longrightarrow> \<not> line_marker post \<and> \<not> prefix (bsl # ''document'') post)
      \<longrightarrow> detect_layout tex = ''single-column'')"
proof (intro conjI allI impI)
  fix pre post
  assume "tex = pre @ post \<and> (pre = [] \<or> last pre = newline) \<and> line_marker post"
  then have "tex = pre @ post \<and> (pre = [] \<or> last pre = newline) \<and> marker_at post"
    by (simp add: line_marker_marker_at)
  then show "detect_layout tex = ''two-column''"
    unfolding detect_layout_iff by blast
next
  assume a: "\<forall>pre post. tex = pre @ post \<and> (pre = [] \<or> last pre = newline)
      \<longrightarrow> \<not> line_marker post \<and> \<not> prefix (bsl # ''document'') post"
  have "\<not> (\<exists>pre post. tex = pre @ post \<and> (pre = [] \<or> last pre = newline) \<and> marker_at post)"
  proof
    assume "\<exists>pre post. tex = pre @ post \<and> (pre = [] \<or> last pre = newline) \<and> marker_at post"
    then obtain pre post where p: "tex = pre @ post" "pre = [] \<or> last pre = newline"
      "marker_at post" by blast
    from a p(1,2) have "\<not> line_marker post \<and> \<not> prefix (bsl # ''document'') post" by blast
    with marker_at_cases [OF p(3)] show False by blast
  qed
  then have "detect_layout tex \<noteq> ''two-column''"
    unfolding detect_layout_iff .
  then show "detect_layout tex = ''single-column''"
    by (simp add: detect_layout_def split: if_splits)
qed

theorem layout_marker_at_line_start_witness:
  "detect_layout (''intro'' @ [newline] @ ''%% twocolumn'') = ''two-column''
   \<and> detect_layout ''ab'' = ''single-column''"
proof
  let ?t = "''intro'' @ [newline] @ ''%% twocolumn''"
  have "?t = (''intro'' @ [newline]) @ ''%% twocolumn'' \<and>
      (''intro'' @ [newline] = [] \<or> last (''intro'' @ [newline]) = newline) \<and>
      line_marker ''%% twocolumn''"
    by (simp add: line_marker_def is_space_def)
  with layout_marker_at_line_start [of ?t] show "detect_layout ?t = ''two-column''"
    by blast
next
  have "\<forall>pre post. ''ab'' = pre @ post \<and> (pre = [] \<or> last pre = newline)
      \<longrightarrow> \<not> line_marker post \<and> \<not> prefix (bsl # ''document'') post"
    by (auto simp: line_marker_def Cons_eq_append_conv)
  with layout_marker_at_line_start [of "''ab''"] show "detect_layout ''ab'' = ''single-column''"
    by blast
qed

text \<open>
  C3, as the claim states it, fails: \<^verbatim>\<open>\twocolumn\<close> stands in this text, but not at the
  start of a line, and the layout is \<^verbatim>\<open>single-column\<close>.
\<close>

theorem layout_marker_mid_line:
  "marker_anywhere (''see '' @ bsl # ''twocolumn'') \<and>
   detect_layout (''see '' @ bsl # ''twocolumn'') = ''single-column''"
  by code_simp

subsection \<open>Order and coverage of the segmentation\<close>

lemma expand_text_acc: "expand_text acc t = acc @ expand_text [] t"
proof -
  have "expand_text ex t =
      foldl expand_part (ex @ map Manim (inline_codes t)) (re_split_pages (snd (sub_manim [] t)))"
    for ex
    using sub_manim_acc [of ex t] by (simp add: expand_text_def)
  then have "expand_text ex t = ex @ map Manim (inline_codes t) @
      foldl expand_part [] (re_split_pages (snd (sub_manim [] t)))" for ex
    using foldl_expand_part_acc [of "ex @ map Manim (inline_codes t)"
        "re_split_pages (snd (sub_manim [] t))"] by simp
  from this [of acc] this [of "[]"] show ?thesis by simp
qed

lemma expand_elements_acc:
  "expand_elements acc els = acc @ expand_elements [] els"
proof (induction els arbitrary: acc)
  case Nil
  then show ?case by simp
next
  case (Cons el els)
  show ?case
  proof (cases el)
    case (Latex t)
    have "expand_elements acc (el # els) = expand_text acc t @ expand_elements [] els"
      using Cons.IH [of "expand_text acc t"] Latex by simp
    moreover have "expand_elements [] (el # els) = expand_text [] t @ expand_elements [] els"
      using Cons.IH [of "expand_text [] t"] Latex by simp
    ultimately show ?thesis using expand_text_acc [of acc t] by simp
  next
    case (Manim c)
    with Cons.IH [of "acc @ [el]"] Cons.IH [of "[] @ [el]"] show ?thesis by simp
  next
    case (Media k f w h s)
    with Cons.IH [of "acc @ [el]"] Cons.IH [of "[] @ [el]"] show ?thesis by simp
  next
    case Pagebreak
    with Cons.IH [of "acc @ [el]"] Cons.IH [of "[] @ [el]"] show ?thesis by simp
  qed
qed

lemma expand_elements_append:
  "expand_elements [] (xs @ ys) = expand_elements [] xs @ expand_elements [] ys"
proof (induction xs)
  case Nil
  then show ?case by simp
next
  case (Cons x xs)
  have a: "expand_elements [] (x # zs) = expand_elements [] [x] @ expand_elements [] zs" for zs
  proof (cases x)
    case (Latex t)
    then show ?thesis using expand_elements_acc [of "expand_text [] t" zs] by simp
  next
    case (Manim c)
    then show ?thesis using expand_elements_acc [of "[x]" zs] by simp
  next
    case (Media k f w h s)
    then show ?thesis using expand_elements_acc [of "[x]" zs] by simp
  next
    case Pagebreak
    then show ?thesis using expand_elements_acc [of "[x]" zs] by simp
  qed
  from a [of "xs @ ys"] a [of xs] Cons.IH show ?case by simp
qed












subsection \<open>Unterminated directives\<close>

text \<open>Text without a closing brace holds no inline animation directive.\<close>

lemma sub_manim_no_rbrace:
  "CHR ''}'' \<notin> set s \<Longrightarrow> sub_manim acc s = (acc, s)"
proof (induction s)
  case Nil
  then show ?case by simp
next
  case (Cons c cs)
  have "set (drop 7 (c # cs)) \<subseteq> set (c # cs)" by (rule set_drop_subset)
  with Cons.prems have "CHR ''}'' \<notin> set (drop 7 (c # cs))" by blast
  then have "sub_manim acc (c # cs) = (case sub_manim acc cs of (ex, t) \<Rightarrow> (ex, c # t))"
    by (simp only: sub_manim.simps simp_thms if_False)
  with Cons show ?case by simp
qed

text \<open>
  A suffix without a closing brace comes through \<^verbatim>\<open>re.sub\<close> untouched: every match ends
  with a closing brace, so it ends before the suffix.
\<close>

lemma sub_manim_keeps_suffix:
  assumes "CHR ''}'' \<notin> set suf"
  shows "\<exists>a'. snd (sub_manim acc (a @ suf)) = a' @ suf"
proof (induction "length a" arbitrary: acc a rule: less_induct)
  case less
  show ?case
  proof (cases a)
    case Nil
    with assms show ?thesis by (simp add: sub_manim_no_rbrace)
  next
    case (Cons c cs)
    let ?s = "c # cs @ suf"
    show ?thesis
    proof (cases "prefix manim_open ?s \<and> CHR ''}'' \<in> set (drop 7 ?s)")
      case True
      have d: "drop 7 ?s = drop 7 a @ drop (7 - length a) suf"
        by (simp add: Cons)
      have sub: "set (drop (7 - length a) suf) \<subseteq> set suf" by (rule set_drop_subset)
      from True have "CHR ''}'' \<in> set (drop 7 ?s)" by (rule conjunct2)
      then have "CHR ''}'' \<in> set (drop 7 a @ drop (7 - length a) suf)" by (simp only: d)
      then have "CHR ''}'' \<in> set (drop 7 a) \<or> CHR ''}'' \<in> set (drop (7 - length a) suf)"
        by (simp only: set_append Un_iff)
      with sub assms have in_a: "CHR ''}'' \<in> set (drop 7 a)" by blast
      then have "drop 7 a \<noteq> []" by auto
      then have "7 < length a" by simp
      with d have d': "drop 7 ?s = drop 7 a @ suf" by simp
      have dw: "dropWhile not_rbrace (drop 7 a @ suf) = dropWhile not_rbrace (drop 7 a) @ suf"
        using in_a by (simp add: dropWhile_append1)
      have ne: "dropWhile not_rbrace (drop 7 a) \<noteq> []"
        using in_a by (simp add: dropWhile_eq_Nil_conv)
      define a2 where "a2 = tl (dropWhile not_rbrace (drop 7 a))"
      have "tl (dropWhile not_rbrace (drop 7 ?s)) = tl (dropWhile not_rbrace (drop 7 a) @ suf)"
        by (simp only: d' dw)
      also have "\<dots> = a2 @ suf"
        unfolding a2_def using ne by (rule tl_append2)
      finally have rest: "tl (dropWhile not_rbrace (drop 7 ?s)) = a2 @ suf" .
      have "length a2 \<le> length (dropWhile not_rbrace (drop 7 a))"
        by (simp add: a2_def)
      also have "\<dots> \<le> length (drop 7 a)" by (rule length_dropWhile_le)
      also have "\<dots> < length a" using \<open>7 < length a\<close> by simp
      finally have lt: "length a2 < length a" .
      have "sub_manim acc ?s =
          sub_manim (acc @ [Manim (takeWhile not_rbrace (drop 7 ?s))]) (a2 @ suf)"
        by (simp only: sub_manim.simps True simp_thms if_True rest)
      with less.hyps [OF lt] show ?thesis by (simp add: Cons)
    next
      case False
      have lt: "length cs < length a" by (simp add: Cons)
      have "sub_manim acc ?s =
          (fst (sub_manim acc (cs @ suf)), c # snd (sub_manim acc (cs @ suf)))"
        by (simp only: sub_manim.simps False simp_thms if_False case_prod_beta)
      moreover from less.hyps [OF lt] obtain a' where
        "snd (sub_manim acc (cs @ suf)) = a' @ suf" by blast
      ultimately have "snd (sub_manim acc (a @ suf)) = (c # a') @ suf"
        by (simp add: Cons)
      then show ?thesis by blast
    qed
  qed
qed

text \<open>\<^verbatim>\<open>str.replace\<close> with a text that ends in a closing brace leaves such a suffix alone.\<close>

lemma prefix_before_suffix:
  assumes "g \<noteq> []" "last g \<notin> set suf"
  shows "prefix g (c @ suf) \<longleftrightarrow> prefix g c"
proof
  assume "prefix g (c @ suf)"
  then consider "prefix g c" | us where "g = c @ us" "prefix us suf"
    by (auto simp: prefix_append)
  then show "prefix g c"
  proof cases
    case 1
    then show ?thesis .
  next
    case 2
    show ?thesis
    proof (cases "us = []")
      case True
      with 2 show ?thesis by simp
    next
      case False
      with 2(1) have "last g = last us" by simp
      moreover from False have "last us \<in> set us" by simp
      moreover from 2(2) have "set us \<subseteq> set suf" by (rule set_mono_prefix)
      ultimately have "last g \<in> set suf" by auto
      with assms(2) show ?thesis by simp
    qed
  qed
next
  assume "prefix g c"
  then show "prefix g (c @ suf)" by (rule prefix_prefix)
qed

lemma remove_all_keeps_suffix:
  assumes "g \<noteq> []" "last g \<notin> set suf"
  shows "remove_all g (c @ suf) = remove_all g c @ suf"
proof (induction "length c" arbitrary: c rule: less_induct)
  case less
  show ?case
  proof (cases c)
    case Nil
    have "remove_all g s = s" if "last g \<notin> set s" for s
      using that
    proof (induction s)
      case Nil
      then show ?case by simp
    next
      case (Cons x xs)
      have "\<not> prefix g (x # xs)"
      proof
        assume "prefix g (x # xs)"
        then have "set g \<subseteq> set (x # xs)" by (rule set_mono_prefix)
        moreover have "last g \<in> set g" using assms(1) by simp
        ultimately show False using Cons.prems by blast
      qed
      with Cons show ?case by simp
    qed
    with assms(2) Nil show ?thesis by simp
  next
    case (Cons x xs)
    show ?thesis
    proof (cases "prefix g (x # xs)")
      case True
      then have p: "prefix g ((x # xs) @ suf)" by (rule prefix_prefix)
      from True have le: "length g \<le> length (x # xs)" by (rule prefix_length_le)
      then have dr: "drop (length g) ((x # xs) @ suf) = drop (length g) (x # xs) @ suf"
        by (simp only: drop_append diff_is_0_eq' drop_0)
      have lt: "length (drop (length g) (x # xs)) < length c"
        using assms(1) by (simp add: Cons)
      have "remove_all g ((x # xs) @ suf) = remove_all g (drop (length g) ((x # xs) @ suf))"
        using p assms(1) by (simp only: remove_all.simps append_Cons simp_thms if_True)
      also have "\<dots> = remove_all g (drop (length g) (x # xs) @ suf)"
        by (simp only: dr)
      also have "\<dots> = remove_all g (drop (length g) (x # xs)) @ suf"
        by (rule less.hyps [OF lt])
      finally have e1: "remove_all g ((x # xs) @ suf) =
          remove_all g (drop (length g) (x # xs)) @ suf" .
      have e2: "remove_all g (x # xs) = remove_all g (drop (length g) (x # xs))"
        using True assms(1) by (simp only: remove_all.simps simp_thms if_True)
      show ?thesis by (simp only: Cons e1 e2)
    next
      case False
      then have np: "\<not> prefix g ((x # xs) @ suf)"
        using prefix_before_suffix [OF assms, of "x # xs"] by simp
      have lt: "length xs < length c" by (simp add: Cons)
      have e1: "remove_all g ((x # xs) @ suf) = x # remove_all g (xs @ suf)"
        using np by simp
      have e2: "remove_all g (x # xs) = x # remove_all g xs"
        using False by simp
      show ?thesis unfolding Cons e1 e2 less.hyps [OF lt] by simp
    qed
  qed
qed

text \<open>Every match of an image or video directive ends with a closing brace.\<close>

lemma finditer_media_groups:
  "(g, opt, path) \<in> set (finditer_media ty s) \<Longrightarrow> g \<noteq> [] \<and> last g = CHR ''}''"
proof (induction ty s rule: finditer_media.induct)
  case (1 ty)
  then show ?case by simp
next
  case (2 ty c cs)
  show ?case
  proof (cases "match_media ty (c # cs)")
    case None
    with 2 show ?thesis by simp
  next
    case (Some m)
    obtain opt' path' rest where m: "m = (opt', path', rest)" by (cases m) auto
    from Some m obtain g' where g': "c # cs = g' @ CHR ''}'' # rest"
      by (auto dest: match_media_Some)
    then have "length (c # cs) - length rest = length (g' @ [CHR ''}''])"
      by (metis add_diff_cancel_right' append.assoc append_Cons append_Nil length_append)
    with g' have tk: "take (length (c # cs) - length rest) (c # cs) = g' @ [CHR ''}'']"
      by (metis append.assoc append_Cons append_Nil append_eq_conv_conj)
    from tk have tk': "take (Suc (length cs) - length rest) (c # cs) = g' @ [CHR ''}'']"
      by simp
    from "2.prems" Some m have "(g, opt, path) = (g' @ [CHR ''}''], opt', path')
        \<or> (g, opt, path) \<in> set (finditer_media ty rest)"
      by (auto simp: tk')
    then show ?thesis
    proof
      assume "(g, opt, path) = (g' @ [CHR ''}''], opt', path')"
      then show ?thesis by simp
    next
      assume "(g, opt, path) \<in> set (finditer_media ty rest)"
      with "2.IH"(2) [OF Some m [symmetric] refl] show ?thesis by simp
    qed
  qed
qed

lemma extract_matches_keeps_suffix:
  assumes "CHR ''}'' \<notin> set suf"
  shows "(\<forall>(g, opt, path)\<in>set ms. g \<noteq> [] \<and> last g = CHR ''}'') \<Longrightarrow>
     \<exists>c'. snd (extract_matches ty ms (acc, c @ suf)) = c' @ suf"
proof (induction ms arbitrary: acc c)
  case Nil
  then show ?case by simp
next
  case (Cons m ms)
  obtain g opt path where m: "m = (g, opt, path)" by (cases m) auto
  with Cons.prems have g: "g \<noteq> []" "last g = CHR ''}''" by auto
  with assms have "remove_all g (c @ suf) = remove_all g c @ suf"
    by (simp add: remove_all_keeps_suffix)
  moreover from Cons.prems have "\<forall>(g, opt, path)\<in>set ms. g \<noteq> [] \<and> last g = CHR ''}''"
    by simp
  ultimately show ?case
    using Cons.IH [of "acc @ [parse_media ty opt path]" "remove_all g c"] by (simp add: m)
qed

lemma extract_media_keeps_suffix:
  assumes "CHR ''}'' \<notin> set suf"
  shows "\<exists>c'. snd (extract_media ty (acc, c @ suf)) = c' @ suf"
proof -
  have "\<forall>(g, opt, path)\<in>set (finditer_media (kind_name ty) (c @ suf)).
      g \<noteq> [] \<and> last g = CHR ''}''"
    using finditer_media_groups by blast
  from extract_matches_keeps_suffix [OF assms this] show ?thesis
    by (simp add: extract_media_def)
qed

text \<open>\<^verbatim>\<open>strip\<close> removes white space at the two ends only.\<close>

lemma dropWhile_before:
  assumes "m \<noteq> []" "\<not> P (hd m)"
  shows "dropWhile P (l @ m @ r) = dropWhile P l @ m @ r"
proof (cases "\<forall>x\<in>set l. P x")
  case True
  then have "dropWhile P l = []" by simp
  moreover from assms have "dropWhile P (m @ r) = m @ r" by (cases m) simp_all
  ultimately show ?thesis using True by (simp add: dropWhile_append)
next
  case False
  then show ?thesis by (auto simp: dropWhile_append)
qed

lemma strip_around:
  assumes "d \<noteq> []" "\<not> is_space (hd d)" "\<not> is_space (last d)"
  shows "\<exists>u v. strip (x @ d @ y) = u @ d @ v \<and> prefix v y"
proof -
  define u where "u = dropWhile is_space x"
  define w where "w = dropWhile is_space (rev y)"
  have a: "dropWhile is_space (x @ d @ y) = u @ d @ y"
    unfolding u_def using assms(1,2) by (rule dropWhile_before)
  have "rev (u @ d @ y) = rev y @ rev d @ rev u" by simp
  moreover have "dropWhile is_space (rev y @ rev d @ rev u) = w @ rev d @ rev u"
    unfolding w_def using assms(1,3) by (intro dropWhile_before) (simp_all add: hd_rev)
  ultimately have "strip (x @ d @ y) = rev (w @ rev d @ rev u)"
    by (simp only: strip_def a)
  then have s: "strip (x @ d @ y) = u @ d @ rev w" by simp
  have "rev y = takeWhile is_space (rev y) @ w"
    by (simp add: w_def)
  then have "y = rev w @ rev (takeWhile is_space (rev y))"
    by (metis rev_append rev_rev_ident)
  then have "prefix (rev w) y" by (metis prefixI)
  with s show ?thesis by blast
qed

text \<open>The three openers of inline directives.\<close>

lemma opener_facts:
  assumes "d \<in> {manim_open, bsl # ''image{'', bsl # ''video{''}"
  shows "d \<noteq> []" "\<not> is_space (hd d)" "\<not> is_space (last d)" "CHR ''}'' \<notin> set d"
    "CHR ''{'' \<in> set d" "hd d = bsl"
  using assms by (auto simp: is_space_def)

text \<open>
  One part of a text block in which an opener is followed by no closing brace: the part
  gives a text element that holds the opener and the text after it.
\<close>

lemma expand_part_unterminated:
  assumes d: "d \<in> {manim_open, bsl # ''image{'', bsl # ''video{''}"
    and y: "CHR ''}'' \<notin> set y"
  shows "\<exists>u v. Latex (u @ d @ v) \<in> set (expand_part acc (x @ d @ y)) \<and> prefix v y"
proof -
  note f = opener_facts [OF d]
  from f(4) y have suf: "CHR ''}'' \<notin> set (d @ y)" by simp
  obtain c1 where c1: "snd (extract_media Image (acc, x @ d @ y)) = c1 @ d @ y"
    using extract_media_keeps_suffix [OF suf, of Image acc x] by auto
  define e1 where "e1 = fst (extract_media Image (acc, x @ d @ y))"
  obtain c2 where c2: "snd (extract_media Video (e1, c1 @ d @ y)) = c2 @ d @ y"
    using extract_media_keeps_suffix [OF suf, of Video e1 c1] by auto
  define e2 where "e2 = fst (extract_media Video (e1, c1 @ d @ y))"
  have i: "extract_media Image (acc, x @ d @ y) = (e1, c1 @ d @ y)"
    using c1 by (simp add: e1_def prod_eq_iff)
  have v: "extract_media Video (e1, c1 @ d @ y) = (e2, c2 @ d @ y)"
    using c2 by (simp add: e2_def prod_eq_iff)
  obtain u0 v0 where s0: "strip (x @ d @ y) = u0 @ d @ v0"
    using strip_around [OF f(1,2,3), of x y] by blast
  obtain u v where s: "strip (c2 @ d @ y) = u @ d @ v" "prefix v y"
    using strip_around [OF f(1,2,3), of c2 y] by blast
  from s0 f(1) have n1: "strip (x @ d @ y) \<noteq> []" by simp
  from s0 f(5) have "CHR ''{'' \<in> set (strip (x @ d @ y))" by simp
  then have n2: "strip (x @ d @ y) \<noteq> newpage" "strip (x @ d @ y) \<noteq> breakpage"
    by auto
  from s f(1) have n3: "strip (c2 @ d @ y) \<noteq> []" by simp
  have "expand_part acc (x @ d @ y) = e2 @ [Latex (u @ d @ v)]"
    using n1 n2 n3 by (simp add: expand_part_def i v s(1))
  with s(2) show ?thesis by auto
qed

text \<open>A page break cannot begin before a backslash and end after it.\<close>

lemma no_straddle:
  assumes "prefix w (a @ bsl # r)" "a \<noteq> []" "bsl \<notin> set (tl w)"
  shows "length w \<le> length a"
proof -
  from assms(1) obtain z where "a @ bsl # r = w @ z" by (auto simp: prefix_def)
  then consider us where "a = w @ us" | us where "a @ us = w" "bsl # r = us @ z"
    by (auto simp: append_eq_append_conv2)
  then show ?thesis
  proof cases
    case 1
    then show ?thesis by simp
  next
    case 2
    show ?thesis
    proof (cases us)
      case Nil
      with 2 show ?thesis by simp
    next
      case (Cons h t)
      with 2(2) have "h = bsl" by simp
      with 2(1) Cons have "w = a @ bsl # t" by simp
      with assms(2) have "bsl \<in> set (tl w)" by simp
      with assms(3) show ?thesis by simp
    qed
  qed
qed

lemma re_split_pages_ne: "re_split_pages s \<noteq> []"
proof (cases s)
  case Nil
  then show ?thesis by simp
next
  case (Cons c cs)
  show ?thesis
  proof (cases "re_split_pages cs")
    case Nil
    then show ?thesis by (simp add: Cons)
  next
    case (Cons p ps)
    then show ?thesis by (simp add: \<open>s = c # cs\<close>)
  qed
qed

lemma re_split_pages_other:
  assumes "\<not> prefix newpage (c # s)" "\<not> prefix breakpage (c # s)"
  shows "re_split_pages (c # s) = (c # hd (re_split_pages s)) # tl (re_split_pages s)"
proof -
  obtain p ps where "re_split_pages s = p # ps"
    using re_split_pages_ne [of s] by (cases "re_split_pages s") auto
  with assms show ?thesis by (simp only: re_split_pages.simps if_False list.case list.sel)
qed

lemma hd_re_split_pages_prefix: "prefix (hd (re_split_pages s)) s"
proof (induction s rule: re_split_pages.induct)
  case 1
  then show ?case by simp
next
  case (2 c cs)
  show ?case
  proof (cases "prefix newpage (c # cs) \<or> prefix breakpage (c # cs)")
    case True
    have "hd (re_split_pages (c # cs)) = []"
    proof (cases "prefix newpage (c # cs)")
      case True
      then show ?thesis by (simp only: re_split_pages.simps if_True list.sel)
    next
      case False
      with True have "prefix breakpage (c # cs)" by blast
      with False show ?thesis by (simp only: re_split_pages.simps if_True if_False list.sel)
    qed
    then show ?thesis by simp
  next
    case False
    then have n: "\<not> prefix newpage (c # cs)" "\<not> prefix breakpage (c # cs)" by auto
    from "2.IH"(3) [OF n] show ?thesis
      by (simp only: re_split_pages_other [OF n] list.sel Cons_prefix_Cons simp_thms)
  qed
qed

lemma re_split_pages_word:
  "bsl \<notin> set ws \<Longrightarrow>
     re_split_pages (ws @ s) = (ws @ hd (re_split_pages s)) # tl (re_split_pages s)"
proof (induction ws)
  case Nil
  then show ?case using re_split_pages_ne [of s] by simp
next
  case (Cons c ws)
  then have "c \<noteq> bsl" by auto
  then have "re_split_pages (c # ws @ s) =
      (c # hd (re_split_pages (ws @ s))) # tl (re_split_pages (ws @ s))"
    by (intro re_split_pages_other) simp_all
  with Cons show ?case by simp
qed

lemma re_split_pages_opener:
  assumes "d \<in> {manim_open, bsl # ''image{'', bsl # ''video{''}"
  shows "re_split_pages (d @ post) = (d @ hd (re_split_pages post)) # tl (re_split_pages post)"
proof -
  from assms consider "d = bsl # CHR ''m'' # ''anim{''" | "d = bsl # CHR ''i'' # ''mage{''"
    | "d = bsl # CHR ''v'' # ''ideo{''"
    by auto
  then obtain c ws where d: "d = bsl # c # ws" and c: "c \<noteq> CHR ''n''" "c \<noteq> CHR ''b''"
    and ws: "bsl \<notin> set (c # ws)"
  proof cases
    case 1
    with that [of "CHR ''m''" "''anim{''"] show ?thesis by simp
  next
    case 2
    with that [of "CHR ''i''" "''mage{''"] show ?thesis by simp
  next
    case 3
    with that [of "CHR ''v''" "''ideo{''"] show ?thesis by simp
  qed
  have "re_split_pages (bsl # c # ws @ post) =
      (bsl # hd (re_split_pages (c # ws @ post))) # tl (re_split_pages (c # ws @ post))"
    using c by (intro re_split_pages_other) simp_all
  moreover have "re_split_pages ((c # ws) @ post) =
      ((c # ws) @ hd (re_split_pages post)) # tl (re_split_pages post)"
    using ws by (rule re_split_pages_word)
  ultimately show ?thesis by (simp add: d)
qed

text \<open>
  The page split of a text leaves an opener whole: one of the parts holds the opener,
  followed by the text after it up to the next page break.
\<close>

lemma re_split_pages_contains:
  assumes d: "d \<in> {manim_open, bsl # ''image{'', bsl # ''video{''}"
  shows "\<exists>x y. x @ d @ y \<in> set (re_split_pages (a @ d @ post)) \<and> prefix y post"
proof (induction "length a" arbitrary: a rule: less_induct)
  case less
  from d obtain d' where d': "d = bsl # d'" by auto
  show ?case
  proof (cases a)
    case Nil
    have "[] @ d @ hd (re_split_pages post) \<in> set (re_split_pages ([] @ d @ post))"
      by (simp add: re_split_pages_opener [OF d])
    with hd_re_split_pages_prefix [of post] Nil show ?thesis by blast
  next
    case (Cons c cs)
    have jump: "\<exists>x y. x @ d @ y \<in> set (re_split_pages (a @ d @ post)) \<and> prefix y post"
      if w: "prefix w (a @ d @ post)" "bsl \<notin> set (tl w)" "w \<noteq> []"
        and r: "re_split_pages (a @ d @ post) =
          [] # w # re_split_pages (drop (length w) (a @ d @ post))" for w
    proof -
      from w(1) have "prefix w (a @ bsl # d' @ post)" by (simp add: d')
      from no_straddle [OF this _ w(2)] Cons have le: "length w \<le> length a" by simp
      then have dr: "drop (length w) (a @ d @ post) = drop (length w) a @ d @ post" by simp
      from le w(3) Cons have "length (drop (length w) a) < length a" by simp
      from less.hyps [OF this] obtain x y where
        "x @ d @ y \<in> set (re_split_pages (drop (length w) a @ d @ post))" "prefix y post"
        by blast
      moreover have "re_split_pages (a @ d @ post) =
          [] # w # re_split_pages (drop (length w) a @ d @ post)"
        using r by (simp only: dr)
      ultimately have "x @ d @ y \<in> set (re_split_pages (a @ d @ post)) \<and> prefix y post"
        by simp
      then show ?thesis by blast
    qed
    show ?thesis
    proof (cases "prefix newpage (a @ d @ post)")
      case True
      have l: "length newpage = 8" by simp
      from True have "re_split_pages (c # (cs @ d @ post)) =
          [] # newpage # re_split_pages (drop 8 (c # (cs @ d @ post)))"
        by (simp only: Cons append_Cons re_split_pages.simps if_True)
      then have r: "re_split_pages (a @ d @ post) =
          [] # newpage # re_split_pages (drop (length newpage) (a @ d @ post))"
        by (simp only: Cons append_Cons l)
      have t: "bsl \<notin> set (tl newpage)" "newpage \<noteq> []" by simp_all
      from True t r show ?thesis by (rule jump)
    next
      case np: False
      show ?thesis
      proof (cases "prefix breakpage (a @ d @ post)")
        case True
        have l: "length breakpage = 10" by simp
        from np True have "re_split_pages (c # (cs @ d @ post)) =
            [] # breakpage # re_split_pages (drop 10 (c # (cs @ d @ post)))"
          by (simp only: Cons append_Cons re_split_pages.simps if_True if_False)
        then have r: "re_split_pages (a @ d @ post) =
            [] # breakpage # re_split_pages (drop (length breakpage) (a @ d @ post))"
          by (simp only: Cons append_Cons l)
        have t: "bsl \<notin> set (tl breakpage)" "breakpage \<noteq> []" by simp_all
        from True t r show ?thesis by (rule jump)
      next
        case False
        from np False have e: "re_split_pages (c # cs @ d @ post) =
            (c # hd (re_split_pages (cs @ d @ post))) # tl (re_split_pages (cs @ d @ post))"
          by (intro re_split_pages_other) (simp_all add: Cons)
        have "length cs < length a" by (simp add: Cons)
        from less.hyps [OF this] obtain x y where
          xy: "x @ d @ y \<in> set (re_split_pages (cs @ d @ post))" "prefix y post"
          by blast
        obtain p ps where pp: "re_split_pages (cs @ d @ post) = p # ps"
          using re_split_pages_ne [of "cs @ d @ post"]
          by (cases "re_split_pages (cs @ d @ post)") auto
        have eq: "re_split_pages (a @ d @ post) = (c # p) # ps"
          using e by (simp only: Cons append_Cons pp list.sel)
        show ?thesis
        proof (cases "x @ d @ y = p")
          case True
          then have "(c # x) @ d @ y = c # p" by simp
          then have "(c # x) @ d @ y \<in> set (re_split_pages (a @ d @ post))"
            by (simp only: eq list.set insert_iff simp_thms)
          with xy(2) show ?thesis by blast
        next
          case False
          with xy(1) have "x @ d @ y \<in> set ps"
            by (simp only: pp list.set insert_iff simp_thms)
          then have "x @ d @ y \<in> set (re_split_pages (a @ d @ post))"
            by (simp only: eq list.set insert_iff simp_thms)
          with xy(2) show ?thesis by blast
        qed
      qed
    qed
  qed
qed

lemma foldl_expand_part_member:
  assumes "p \<in> set ps"
  shows "\<exists>acc'. set (expand_part acc' p) \<subseteq> set (foldl expand_part acc ps)"
proof -
  from assms obtain ps1 ps2 where ps: "ps = ps1 @ p # ps2" by (auto dest: split_list)
  define acc' where "acc' = foldl expand_part acc ps1"
  have "foldl expand_part acc ps = foldl expand_part (expand_part acc' p) ps2"
    by (simp add: ps acc'_def)
  also have "\<dots> = expand_part acc' p @ foldl expand_part [] ps2"
    using foldl_expand_part_acc [of "expand_part acc' p" ps2] by simp
  finally show ?thesis by auto
qed

text \<open>The second pass on a text block whose opener is followed by no closing brace.\<close>

lemma expand_text_unterminated:
  assumes d: "d \<in> {manim_open, bsl # ''image{'', bsl # ''video{''}"
    and post: "CHR ''}'' \<notin> set post"
  shows "\<exists>u v. Latex (u @ d @ v) \<in> set (expand_text acc (a @ d @ post)) \<and> prefix v post"
proof -
  from opener_facts(4) [OF d] post have suf: "CHR ''}'' \<notin> set (d @ post)" by simp
  obtain a' where a': "snd (sub_manim acc (a @ d @ post)) = a' @ d @ post"
    using sub_manim_keeps_suffix [OF suf, of acc a] by auto
  obtain x y where xy: "x @ d @ y \<in> set (re_split_pages (a' @ d @ post))" "prefix y post"
    using re_split_pages_contains [OF d, of a' post] by blast
  from xy(2) post have y: "CHR ''}'' \<notin> set y"
    using set_mono_prefix by blast
  define ex where "ex = fst (sub_manim acc (a @ d @ post))"
  obtain acc' where acc': "set (expand_part acc' (x @ d @ y))
      \<subseteq> set (foldl expand_part ex (re_split_pages (a' @ d @ post)))"
    using foldl_expand_part_member [OF xy(1)] by blast
  obtain u v where uv: "Latex (u @ d @ v) \<in> set (expand_part acc' (x @ d @ y))" "prefix v y"
    using expand_part_unterminated [OF d y] by blast
  have "expand_text acc (a @ d @ post) = foldl expand_part ex (re_split_pages (a' @ d @ post))"
    using a' by (simp add: expand_text_def ex_def case_prod_beta)
  with acc' uv(1) have "Latex (u @ d @ v) \<in> set (expand_text acc (a @ d @ post))" by auto
  moreover from uv(2) xy(2) have "prefix v post" by (rule prefix_order.trans)
  ultimately show ?thesis by blast
qed

text \<open>The first pass leaves a suffix without a closing brace in the last text block.\<close>

lemma brace_split:
  assumes "a @ suf = h @ CHR ''}'' # aft" "CHR ''}'' \<notin> set suf"
  shows "\<exists>a2. aft = a2 @ suf \<and> length a2 < length a"
proof -
  from assms(1) have "a @ suf = (h @ [CHR ''}'']) @ aft" by simp
  then have "\<exists>us. a = (h @ [CHR ''}'']) @ us \<and> us @ suf = aft
      \<or> a @ us = h @ [CHR ''}''] \<and> suf = us @ aft"
    by (simp only: append_eq_append_conv2)
  then consider us where "a = (h @ [CHR ''}'']) @ us" "us @ suf = aft"
    | us where "a @ us = h @ [CHR ''}'']" "suf = us @ aft"
    by blast
  then show ?thesis
  proof cases
    case 1
    then have "aft = us @ suf \<and> length us < length a" by auto
    then show ?thesis by blast
  next
    case 2
    show ?thesis
    proof (cases "us = []")
      case True
      with 2 have "aft = [] @ suf \<and> length ([] :: string) < length a" by auto
      then show ?thesis by blast
    next
      case False
      then have "last (a @ us) = last us" by simp
      with 2(1) have "last us = CHR ''}''" by simp
      with False have "CHR ''}'' \<in> set us" by (metis last_in_set)
      with 2(2) assms(2) show ?thesis by simp
    qed
  qed
qed

lemma first_pass_unterminated:
  assumes "CHR ''}'' \<notin> set suf"
  shows "\<exists>els a'. first_pass (a @ suf) = els @ text_block (a' @ suf)"
proof (induction "length a" arbitrary: a rule: less_induct)
  case less
  have whole: "\<exists>els a'. first_pass (a @ suf) = els @ text_block (a' @ suf)"
    if "first_pass (a @ suf) = text_block (a @ suf)"
  proof -
    from that have "first_pass (a @ suf) = [] @ text_block (a @ suf)" by simp
    then show ?thesis by blast
  qed
  show ?case
  proof (cases "split_at_first begin_manim (a @ suf)")
    case None
    then show ?thesis by (intro whole) (simp add: first_pass.simps)
  next
    case (Some x)
    obtain bef rest where x: "x = (bef, rest)" by (cases x) auto
    show ?thesis
    proof (cases "split_at_first end_manim rest")
      case None
      with Some x show ?thesis by (intro whole) (simp add: first_pass.simps)
    next
      case (Some y)
      obtain body aft where y: "y = (body, aft)" by (cases y) auto
      from \<open>split_at_first begin_manim (a @ suf) = Some x\<close> x
      have t: "a @ suf = bef @ begin_manim @ rest" by (auto dest: split_at_first_Some)
      from Some y have r: "rest = body @ end_manim @ aft" by (auto dest: split_at_first_Some)
      from t r have "a @ suf = (bef @ begin_manim @ body @ bsl # ''end{manim'') @ CHR ''}'' # aft"
        by simp
      from brace_split [OF this assms] obtain a2 where a2: "aft = a2 @ suf" "length a2 < length a"
        by blast
      from less.hyps [OF a2(2)] obtain els a' where
        ih: "first_pass (a2 @ suf) = els @ text_block (a' @ suf)" by blast
      from \<open>split_at_first begin_manim (a @ suf) = Some x\<close> x Some y
      have "first_pass (a @ suf) = text_block bef @ [Manim (strip body)] @ first_pass aft"
        by (simp add: first_pass.simps)
      with a2(1) ih have "first_pass (a @ suf) =
          (text_block bef @ [Manim (strip body)] @ els) @ text_block (a' @ suf)"
        by simp
      then show ?thesis by blast
    qed
  qed
qed

text \<open>
  C4. Let the source hold the opener of an inline directive (\<^verbatim>\<open>\manim{\<close>, \<^verbatim>\<open>\image{\<close> or
  \<^verbatim>\<open>\video{\<close>) with no closing brace anywhere after it. Then the opener is not consumed:
  segmentation gives a text element whose text holds the opener, followed by text that
  stands right after the opener in the source.
\<close>

theorem unterminated_directive_is_text:
  assumes "d \<in> {manim_open, bsl # ''image{'', bsl # ''video{''}"
    and "CHR ''}'' \<notin> set post"
  shows "\<exists>u v. Latex (u @ d @ v) \<in> set (fst (parse_latex (pre @ d @ post))) \<and> prefix v post"
proof -
  note f = opener_facts [OF assms(1)]
  from f(4) assms(2) have suf: "CHR ''}'' \<notin> set (d @ post)" by simp
  obtain els a' where fp: "first_pass (pre @ d @ post) = els @ text_block (a' @ d @ post)"
    using first_pass_unterminated [OF suf, of pre] by auto
  obtain u v where uv: "strip (a' @ d @ post) = u @ d @ v" "prefix v post"
    using strip_around [OF f(1,2,3), of a' post] by blast
  from uv(1) f(1) have "text_block (a' @ d @ post) = [Latex (u @ d @ v)]"
    by (simp add: text_block_def)
  with fp have "fst (parse_latex (pre @ d @ post)) =
      expand_elements [] els @ expand_text [] (u @ d @ v)"
    by (simp add: parse_latex_def expand_elements_append)
  moreover from uv(2) assms(2) have "CHR ''}'' \<notin> set v"
    using set_mono_prefix by blast
  from expand_text_unterminated [OF assms(1) this, of "[]" u] obtain u' v' where
    "Latex (u' @ d @ v') \<in> set (expand_text [] (u @ d @ v))" "prefix v' v" by blast
  moreover from this(2) uv(2) have "prefix v' post" by (rule prefix_order.trans)
  ultimately show ?thesis by auto
qed

theorem unterminated_directive_is_text_witness:
  "Latex (''see '' @ (bsl # ''image{'') @ ''fig.png'')
     \<in> set (fst (parse_latex (''see '' @ (bsl # ''image{'') @ ''fig.png'')))
   \<and> fst (parse_latex (''see '' @ (bsl # ''image{'') @ ''fig.png'')) =
       [Latex (''see '' @ (bsl # ''image{'') @ ''fig.png'')]"
proof -
  have e: "fst (parse_latex (''see '' @ (bsl # ''image{'') @ ''fig.png'')) =
       [Latex (''see '' @ (bsl # ''image{'') @ ''fig.png'')]"
    by code_simp
  have "bsl # ''image{'' \<in> {manim_open, bsl # ''image{'', bsl # ''video{''}" by simp
  moreover have "CHR ''}'' \<notin> set ''fig.png''" by simp
  ultimately have "\<exists>u v. Latex (u @ (bsl # ''image{'') @ v)
      \<in> set (fst (parse_latex (''see '' @ (bsl # ''image{'') @ ''fig.png''))) \<and>
      prefix v ''fig.png''"
    by (rule unterminated_directive_is_text)
  with e show ?thesis by simp
qed

text \<open>
  C4, as the claim states it, fails when a closing brace of other markup follows. Here
  the brace of \<^verbatim>\<open>\manim{\<close> is never closed, the only closing brace belongs to
  \<^verbatim>\<open>\textbf{b}\<close>, and the whole text is consumed as one animation directive: no text
  element holds the opener.
\<close>

theorem unbalanced_directive_consumed:
  "fst (parse_latex (manim_open @ ''a '' @ bsl # ''textbf{b}'')) =
     [Manim (''a '' @ bsl # ''textbf{b'')]
   \<and> \<not> (\<exists>u v. Latex (u @ manim_open @ v)
          \<in> set (fst (parse_latex (manim_open @ ''a '' @ bsl # ''textbf{b}''))))"
proof -
  have "fst (parse_latex (manim_open @ ''a '' @ bsl # ''textbf{b}'')) =
     [Manim (''a '' @ bsl # ''textbf{b'')]"
    by code_simp
  then show ?thesis by simp
qed

subsection \<open>Command line\<close>

text \<open>
  C7. An invocation that gives the input file and \<^verbatim>\<open>-o\<close> but no output file has
  three entries in \<^verbatim>\<open>sys.argv\<close>, so the length test lets it through and the lookup of
  the entry after \<^verbatim>\<open>-o\<close> raises IndexError: no usage message is printed.
\<close>

theorem main_args_missing_output:
  "main_args [''create.py'', ''in.tex'', ''-o''] = Raised IndexError"
  by (simp add: main_args_def)

end
